theory Spec2Isabelle
  imports Complex_Main "HOL-Library.Word" "HOL-Library.Signed_Division"
begin

section \<open>ESP8266 DHT22 temperature and humidity graphs: the sketch as HOL functions\<close>

text \<open>
  The sketch \<^verbatim>\<open>ESP8266_DHT22_Temp_Humi_Graphs_v4.ino\<close> keeps two global arrays of
  \<^verbatim>\<open>max_readings + 1\<close> floats, writes one sensor reading per call of \<^verbatim>\<open>loop()\<close> into
  each, draws both arrays with \<^verbatim>\<open>DrawGraph\<close> and scrolls them once they are full.

  Conventions of the model.
  \<^item> C \<^verbatim>\<open>int\<close> (32 bits) is \<open>int\<close>; \<^verbatim>\<open>/\<close> on \<^verbatim>\<open>int\<close> truncates towards zero and is
    \<open>sdiv\<close>. Signed overflow is undefined in C: where an \<^verbatim>\<open>int\<close> is computed from the
    samples (line 91) the model returns \<open>Inl Signed_overflow\<close>; the coordinates, which
    are computed from the arguments of \<^verbatim>\<open>DrawGraph\<close>, are computed in the integers, so
    there the model agrees with the program wherever the program's arithmetic is
    defined. Loop counters and \<^verbatim>\<open>reading\<close>, which start at 0 or 1 and only count up,
    are \<open>nat\<close>.
  \<^item> C \<^verbatim>\<open>float\<close> is the type \<open>float\<close> below: binary32 with rounding to nearest. The
    sign of zero is not modelled; comparisons with NaN are false.
  \<^item> Converting NaN, an infinity or a number beyond the range of \<^verbatim>\<open>int\<close> to \<^verbatim>\<open>int\<close> is
    undefined in C: the model returns \<open>Inl Undefined_conversion\<close> from there on.
  \<^item> The display and the serial port are write-only collaborators: each is the list of
    calls made on it so far, in order.
  \<^item> \<^verbatim>\<open>max_readings\<close> is a macro (200 in the sketch); the functions take it as their
    first parameter \<open>mr\<close>, and \<open>max_readings\<close> is its value in the sketch.
\<close>

subsection \<open>Floats\<close>

text \<open>
  A \<^verbatim>\<open>float\<close> of the sketch is an IEEE 754 binary32 value: a number, an infinity or
  NaN. A number is kept as the rational it denotes; every operation computes the exact
  rational result and rounds it to the nearest binary32 number, ties to the even
  significand, as the soft-float arithmetic of the ESP8266 toolchain does.
\<close>

datatype float = Fin rat | PInf | NInf | NaN

definition pow2 :: "int \<Rightarrow> rat" where
  "pow2 k = (if 0 \<le> k then 2 ^ nat k else 1 / 2 ^ nat (- k))"

text \<open>
  The binary exponent of a binary32 number of magnitude \<open>x\<close>: the greatest \<open>e\<close> from
  -125 to 127 with \<open>2 ^ e \<le> x\<close>, and -126 (the exponent of the subnormal numbers too)
  when there is none.
\<close>

primrec expo_search :: "nat \<Rightarrow> rat \<Rightarrow> int" where
  "expo_search 0 x = - 126"
| "expo_search (Suc n) x = (if pow2 (int n - 125) \<le> x then int n - 125 else expo_search n x)"

definition expo :: "rat \<Rightarrow> int" where
  "expo q = expo_search 253 \<bar>q\<bar>"

text \<open>The spacing of the binary32 numbers around \<open>q\<close>: 24 significant bits.\<close>

definition ulp :: "rat \<Rightarrow> rat" where
  "ulp q = pow2 (expo q - 23)"

definition round_half_even :: "rat \<Rightarrow> int" where
  "round_half_even x =
     (let f = \<lfloor>x\<rfloor>; d = x - of_int f
      in if d < 1 / 2 then f else if 1 / 2 < d then f + 1 else if even f then f else f + 1)"

definition max_float :: rat where
  "max_float = (2 ^ 24 - 1) * 2 ^ 104"

text \<open>Rounding to binary32; beyond the greatest number the result is an infinity.\<close>

definition rnd :: "rat \<Rightarrow> float" where
  "rnd q =
     (let r = of_int (round_half_even (q / ulp q)) * ulp q
      in if max_float < r then PInf else if r < - max_float then NInf else Fin r)"

text \<open>The rationals that are binary32 numbers.\<close>

definition binary32 :: "rat \<Rightarrow> bool" where
  "binary32 q = (rnd q = Fin q)"

text \<open>The conversion of an \<^verbatim>\<open>int\<close> to float rounds as well.\<close>

definition i2f :: "int \<Rightarrow> float" where
  "i2f k = rnd (of_int k)"

text \<open>
  \<^verbatim>\<open>isnan\<close> is the C library's: true of NaN only. The DHT driver reports a failed read
  as NaN.
\<close>

definition isnan :: "float \<Rightarrow> bool" where
  "isnan x = (x = NaN)"

fun fless :: "float \<Rightarrow> float \<Rightarrow> bool" where
  "fless (Fin a) (Fin b) = (a < b)"
| "fless (Fin a) PInf = True"
| "fless (Fin a) NInf = False"
| "fless PInf y = False"
| "fless NInf (Fin b) = True"
| "fless NInf PInf = True"
| "fless NInf NInf = False"
| "fless x NaN = False"
| "fless NaN y = False"

fun fle :: "float \<Rightarrow> float \<Rightarrow> bool" where
  "fle (Fin a) (Fin b) = (a \<le> b)"
| "fle (Fin a) PInf = True"
| "fle (Fin a) NInf = False"
| "fle PInf PInf = True"
| "fle PInf (Fin b) = False"
| "fle PInf NInf = False"
| "fle NInf (Fin b) = True"
| "fle NInf PInf = True"
| "fle NInf NInf = True"
| "fle x NaN = False"
| "fle NaN y = False"

definition fgt :: "float \<Rightarrow> float \<Rightarrow> bool" where
  "fgt x y = fless y x"

fun fneg :: "float \<Rightarrow> float" where
  "fneg (Fin a) = Fin (- a)"
| "fneg PInf = NInf"
| "fneg NInf = PInf"
| "fneg NaN = NaN"

fun fadd :: "float \<Rightarrow> float \<Rightarrow> float" where
  "fadd (Fin a) (Fin b) = rnd (a + b)"
| "fadd (Fin a) PInf = PInf"
| "fadd (Fin a) NInf = NInf"
| "fadd PInf (Fin b) = PInf"
| "fadd PInf PInf = PInf"
| "fadd PInf NInf = NaN"
| "fadd NInf (Fin b) = NInf"
| "fadd NInf NInf = NInf"
| "fadd NInf PInf = NaN"
| "fadd x NaN = NaN"
| "fadd NaN y = NaN"

definition fsub :: "float \<Rightarrow> float \<Rightarrow> float" where
  "fsub x y = fadd x (fneg y)"

text \<open>An infinity of the sign of \<open>a\<close>; NaN when \<open>a\<close> is zero.\<close>

definition signed_inf :: "rat \<Rightarrow> float" where
  "signed_inf a = (if a = 0 then NaN else if 0 < a then PInf else NInf)"

fun fmul :: "float \<Rightarrow> float \<Rightarrow> float" where
  "fmul (Fin a) (Fin b) = rnd (a * b)"
| "fmul (Fin a) PInf = signed_inf a"
| "fmul (Fin a) NInf = signed_inf (- a)"
| "fmul PInf (Fin b) = signed_inf b"
| "fmul PInf PInf = PInf"
| "fmul PInf NInf = NInf"
| "fmul NInf (Fin b) = signed_inf (- b)"
| "fmul NInf PInf = NInf"
| "fmul NInf NInf = PInf"
| "fmul x NaN = NaN"
| "fmul NaN y = NaN"

text \<open>
  Float division does not trap: a non-zero number over zero is an infinity, zero over
  zero is NaN. Every divisor in the sketch is a converted \<^verbatim>\<open>int\<close>, so a zero divisor
  is the positive zero.
\<close>

fun fdiv :: "float \<Rightarrow> float \<Rightarrow> float" where
  "fdiv (Fin a) (Fin b) = (if b = 0 then signed_inf a else rnd (a / b))"
| "fdiv (Fin a) PInf = Fin 0"
| "fdiv (Fin a) NInf = Fin 0"
| "fdiv PInf (Fin b) = (if 0 \<le> b then PInf else NInf)"
| "fdiv NInf (Fin b) = (if 0 \<le> b then NInf else PInf)"
| "fdiv PInf PInf = NaN"
| "fdiv PInf NInf = NaN"
| "fdiv NInf PInf = NaN"
| "fdiv NInf NInf = NaN"
| "fdiv x NaN = NaN"
| "fdiv NaN y = NaN"

text \<open>
  The conversion of a float to \<^verbatim>\<open>int\<close> drops the fraction (towards zero). \<^verbatim>\<open>int\<close> has
  32 bits on the ESP8266; C leaves the conversion undefined when the result is not an
  \<^verbatim>\<open>int\<close>, and for an infinity or NaN.
\<close>

definition INT_MAX :: int where "INT_MAX = 2147483647"
definition INT_MIN :: int where "INT_MIN = - 2147483648"

fun f2i :: "float \<Rightarrow> int option" where
  "f2i (Fin q) =
     (let k = (if 0 \<le> q then \<lfloor>q\<rfloor> else \<lceil>q\<rceil>)
      in if INT_MIN \<le> k \<and> k \<le> INT_MAX then Some k else None)"
| "f2i PInf = None"
| "f2i NInf = None"
| "f2i NaN = None"

text \<open>
  Modelled from the spec: the Arduino core's macro \<^verbatim>\<open>constrain(amt, low, high)\<close>, which
  is not part of the sketch; the spec's \<^verbatim>\<open>clamp(sample, 0, effective_upper_bound)\<close>, by
  which off-scale samples saturate at the edges: \<^verbatim>\<open>low\<close> below \<^verbatim>\<open>low\<close>, \<^verbatim>\<open>high\<close> above
  \<^verbatim>\<open>high\<close>, the sample itself otherwise (also when it is NaN, which compares false).
  The bounds are \<^verbatim>\<open>int\<close>s, converted to float for the comparison with the float sample.
\<close>

definition constrain :: "float \<Rightarrow> float \<Rightarrow> float \<Rightarrow> float" where
  "constrain amt low high = (if fless amt low then low else if fgt amt high then high else amt)"

subsection \<open>The display, the serial port and the global variables\<close>

datatype tft_call =
    TftBegin
  | SetRotation int
  | SetTextSize int
  | SetTextColor int
  | SetCursor int int
  | FillScreen int
  | PrintText string
  | PrintChar int
  | PrintInt int
  | PrintFloat float int
  | DrawRect int int int int int
  | DrawLine int int int int int
  | DrawPixel int int int
  | DrawFastHLine int int int int

datatype serial_call =
    SerialPrintText string
  | SerialPrintFloat float int
  | SerialPrintlnText string
  | SerialPrintlnFloat float int

definition BLACK :: int where "BLACK = 0"
definition BLUE :: int where "BLUE = 31"
definition RED :: int where "RED = 63488"
definition GREEN :: int where "GREEN = 2016"
definition YELLOW :: int where "YELLOW = 65504"
definition WHITE :: int where "WHITE = 65535"

definition max_readings :: nat where
  "max_readings = 200"

definition temp_error_offset :: int where "temp_error_offset = 1"
definition humi_error_offset :: int where "humi_error_offset = 1"

text \<open>
  \<^verbatim>\<open>DataArray\<close> of \<^verbatim>\<open>DrawGraph\<close> is a pointer to one of the two global arrays.
\<close>

datatype series = Temp | Humi

text \<open>
  The globals of the sketch. The field \<open>subscripts\<close> is a history variable, not a
  variable of the sketch: it records, in order, every subscript applied to one of the
  two arrays, for reading or for writing.
\<close>

record state =
  temperature :: float
  humidity :: float
  min_temp :: float
  max_temp :: float
  min_humi :: float
  max_humi :: float
  temp_readings :: "float list"
  humi_readings :: "float list"
  reading :: nat
  tft :: "tft_call list"
  serial :: "serial_call list"
  subscripts :: "(series \<times> nat) list"

text \<open>The initialisers of lines 44 to 51; a global without one starts at zero.\<close>

definition initial :: "nat \<Rightarrow> state" where
  "initial mr =
     \<lparr> temperature = Fin 0, humidity = Fin 0,
       min_temp = i2f 100, max_temp = i2f (- 100), min_humi = i2f 100, max_humi = i2f (- 100),
       temp_readings = replicate (mr + 1) (Fin 0),
       humi_readings = replicate (mr + 1) (Fin 0),
       reading = 1, tft = [], serial = [], subscripts = [] \<rparr>"

definition elems :: "series \<Rightarrow> state \<Rightarrow> float list" where
  "elems a s = (case a of Temp \<Rightarrow> temp_readings s | Humi \<Rightarrow> humi_readings s)"

definition subscripted :: "series \<Rightarrow> nat \<Rightarrow> state \<Rightarrow> state" where
  "subscripted a i s = s\<lparr>subscripts := subscripts s @ [(a, i)]\<rparr>"

text \<open>
  \<^verbatim>\<open>a[i]\<close> as a value, and \<^verbatim>\<open>a[i] = v\<close>. C leaves a subscript outside the array
  undefined, and so do \<open>!\<close> and list update here; theorem \<open>subscripts_in_slots\<close> below
  shows that the sketch, started by \<^verbatim>\<open>setup()\<close>, never applies one.
\<close>

definition rd :: "series \<Rightarrow> nat \<Rightarrow> state \<Rightarrow> float \<times> state" where
  "rd a i s = (elems a s ! i, subscripted a i s)"

definition wr :: "series \<Rightarrow> nat \<Rightarrow> float \<Rightarrow> state \<Rightarrow> state" where
  "wr a i v s =
     subscripted a i (case a of
       Temp \<Rightarrow> s\<lparr>temp_readings := (temp_readings s)[i := v]\<rparr>
     | Humi \<Rightarrow> s\<lparr>humi_readings := (humi_readings s)[i := v]\<rparr>)"

definition emit :: "tft_call list \<Rightarrow> state \<Rightarrow> state" where
  "emit cs s = s\<lparr>tft := tft s @ cs\<rparr>"

definition say :: "serial_call list \<Rightarrow> state \<Rightarrow> state" where
  "say cs s = s\<lparr>serial := serial s @ cs\<rparr>"

datatype fault = Undefined_conversion | Signed_overflow

text \<open>A counted loop whose body can be undefined: it stops at the first fault.\<close>

primrec for_each :: "nat list \<Rightarrow> (nat \<Rightarrow> 'a \<Rightarrow> fault + 'a) \<Rightarrow> 'a \<Rightarrow> fault + 'a" where
  "for_each [] body x = Inr x"
| "for_each (i # is) body x =
     (case body i x of Inl e \<Rightarrow> Inl e | Inr x' \<Rightarrow> for_each is body x')"

subsection \<open>DrawGraph (lines 85 to 126)\<close>

definition auto_scale_major_tick :: int where "auto_scale_major_tick = 5"
definition yticks :: int where "yticks = 5"
definition number_of_dashes :: int where "number_of_dashes = 40"

text \<open>
  Line 90, the body of the scan:
  \<^verbatim>\<open>if (maxYscale <= DataArray[i]) maxYscale = DataArray[i];\<close>
  The comparison converts \<^verbatim>\<open>maxYscale\<close> to float; the assignment converts the sample
  to \<^verbatim>\<open>int\<close>.
\<close>

definition scan_step :: "series \<Rightarrow> nat \<Rightarrow> int \<times> state \<Rightarrow> fault + int \<times> state" where
  "scan_step DataArray i ms =
     (let (maxYscale, s) = ms; (d, s1) = rd DataArray i s
      in if fle (i2f maxYscale) d
         then (let (d', s2) = rd DataArray i s1
               in case f2i d' of None \<Rightarrow> Inl Undefined_conversion | Some k \<Rightarrow> Inr (k, s2))
         else Inr (maxYscale, s1))"

text \<open>Lines 88 to 93: the upper bound of the y axis that the rest of the function uses.\<close>

definition resolve_Y1Max :: "nat \<Rightarrow> int \<Rightarrow> series \<Rightarrow> bool \<Rightarrow> state \<Rightarrow> fault + int \<times> state" where
  "resolve_Y1Max mr Y1Max DataArray auto_scale s =
     (if auto_scale
      then (case for_each [1..<Suc mr] (scan_step DataArray) (0, s) of
              Inl e \<Rightarrow> Inl e
            | Inr (m, s1) \<Rightarrow>
                (if INT_MAX < m + auto_scale_major_tick + 2 then Inl Signed_overflow
                 else (let maxYscale = ((m + auto_scale_major_tick + 2) sdiv auto_scale_major_tick)
                                         * auto_scale_major_tick
                       in Inr (if maxYscale < Y1Max then maxYscale else Y1Max, s1))))
      else Inr (Y1Max, s))"

text \<open>
  Line 99, the x coordinate of the title: \<^verbatim>\<open>x_pos + (width - title.length()*12)/2\<close>.
  \<^verbatim>\<open>String::length()\<close> is an \<^verbatim>\<open>unsigned int\<close>, so the whole expression is computed in
  unsigned 32-bit arithmetic, where the subtraction wraps and the division is unsigned.
\<close>

definition title_x :: "int \<Rightarrow> int \<Rightarrow> string \<Rightarrow> int" where
  "title_x x_pos width title =
     uint ((word_of_int x_pos :: 32 word)
           + (word_of_int width - word_of_nat (length title) * 12) div 2)"

text \<open>
  Line 108, the right-hand side as the float it is before its conversion to \<^verbatim>\<open>int\<close>:
  \<^verbatim>\<open>y_pos + height - constrain(DataArray[gx],0,Y1Max) * height / Y1Max + 1\<close>.
\<close>

definition scaled_y :: "int \<Rightarrow> int \<Rightarrow> float \<Rightarrow> int \<Rightarrow> float" where
  "scaled_y y_pos height d Y1Max =
     fadd (fsub (i2f (y_pos + height))
                (fdiv (fmul (constrain d (i2f 0) (i2f Y1Max)) (i2f height)) (i2f Y1Max)))
          (i2f 1)"

text \<open>Lines 105 to 114, the body of the loop that draws the data.\<close>

definition plot_step ::
  "nat \<Rightarrow> int \<Rightarrow> int \<Rightarrow> int \<Rightarrow> int \<Rightarrow> int \<Rightarrow> series \<Rightarrow> bool \<Rightarrow> int \<Rightarrow> nat \<Rightarrow> state \<Rightarrow> fault + state" where
  "plot_step mr x_pos y_pos width height Y1Max DataArray barchart_mode graph_colour gx s =
     (let x1 = x_pos + (int gx * width) sdiv int mr;
          y1 = y_pos + height;
          x2 = x_pos + (int gx * width) sdiv int mr;
          (d, s1) = rd DataArray gx s
      in case f2i (scaled_y y_pos height d Y1Max) of
           None \<Rightarrow> Inl Undefined_conversion
         | Some y2 \<Rightarrow>
             Inr (if barchart_mode
                  then emit [DrawLine x1 y1 x2 y2 graph_colour] s1
                  else emit [DrawPixel x2 y2 graph_colour, DrawPixel x2 (y2 - 1) graph_colour] s1))"

text \<open>Lines 118 to 124, the body of the loop that draws the y axis.\<close>

definition grid_step :: "int \<Rightarrow> int \<Rightarrow> int \<Rightarrow> int \<Rightarrow> int \<Rightarrow> int \<Rightarrow> state \<Rightarrow> state" where
  "grid_step x_pos y_pos width height Y1Max spacing s =
     (let s1 = fold (\<lambda>j t.
                 if spacing < yticks
                 then emit [DrawFastHLine (x_pos + 1 + (j * width) sdiv number_of_dashes)
                                          (y_pos + (height * spacing) sdiv yticks)
                                          (width sdiv (2 * number_of_dashes)) WHITE] t
                 else t) [0..number_of_dashes - 1] s
      in emit [SetTextColor YELLOW,
               SetCursor (x_pos - 20) (y_pos + (height * spacing) sdiv yticks - 4),
               PrintInt (Y1Max - Y1Max sdiv yticks * spacing)] s1)"

definition DrawGraph ::
  "nat \<Rightarrow> int \<Rightarrow> int \<Rightarrow> int \<Rightarrow> int \<Rightarrow> int \<Rightarrow> string \<Rightarrow> series \<Rightarrow> bool \<Rightarrow> bool \<Rightarrow> int \<Rightarrow> state
     \<Rightarrow> fault + state" where
  "DrawGraph mr x_pos y_pos width height Y1Max title DataArray auto_scale barchart_mode graph_colour s =
     (case resolve_Y1Max mr Y1Max DataArray auto_scale s of
        Inl e \<Rightarrow> Inl e
      | Inr (Y1Max', s1) \<Rightarrow>
          (let s2 = emit [DrawRect x_pos y_pos (width + 2) (height + 3) WHITE,
                          SetTextSize 2,
                          SetTextColor graph_colour,
                          SetCursor (title_x x_pos width title) (y_pos - 20),
                          PrintText title,
                          SetTextSize 1] s1
           in case for_each [1..<Suc mr]
                     (plot_step mr x_pos y_pos width height Y1Max' DataArray barchart_mode graph_colour) s2 of
                Inl e \<Rightarrow> Inl e
              | Inr s3 \<Rightarrow> Inr (fold (grid_step x_pos y_pos width height Y1Max') [0..yticks] s3)))"

subsection \<open>setup, loop and get_temperature_and_humidity\<close>

text \<open>
  Lines 129 to 147. Only the calls on the display are recorded; starting the serial
  port and the sensor, the delay, the backlight and the radio leave no trace here.
\<close>

definition setup_sketch :: "nat \<Rightarrow> state \<Rightarrow> state" where
  "setup_sketch mr s =
     fold (\<lambda>x t. wr Humi x (i2f 0) (wr Temp x (i2f 0) t)) [0..<Suc mr]
       (emit [TftBegin, SetRotation 3, SetTextSize 2, SetTextColor WHITE, FillScreen BLACK] s)"

text \<open>
  Lines 205 to 216. \<open>t\<close> and \<open>h\<close> are what \<^verbatim>\<open>dht.readTemperature()\<close> and
  \<^verbatim>\<open>dht.readHumidity()\<close> return on this call. The \<^verbatim>\<open>return\<close> of line 211 leaves this
  function only.
\<close>

definition get_temperature_and_humidity :: "float \<Rightarrow> float \<Rightarrow> state \<Rightarrow> state" where
  "get_temperature_and_humidity t h s =
     (let s1 = s\<lparr>temperature := fadd t (i2f temp_error_offset)\<rparr>;
          s2 = s1\<lparr>humidity := fadd h (i2f humi_error_offset)\<rparr>
      in if isnan (humidity s2) \<or> isnan (temperature s2)
         then say [SerialPrintlnText ''Failed to read from DHT sensor!''] s2
         else say [SerialPrintFloat (temperature s2) 2,
                   SerialPrintText ''  '',
                   SerialPrintlnFloat (humidity s2) 2] s2)"

text \<open>Lines 160 to 165: the new reading goes into both arrays and into the extrema.\<close>

definition store_reading :: "state \<Rightarrow> state" where
  "store_reading s =
     (let s1 = wr Temp (reading s) (temperature s) s;
          s2 = wr Humi (reading s1) (humidity s1) s1;
          s3 = (if fgt (temperature s2) (max_temp s2) then s2\<lparr>max_temp := temperature s2\<rparr> else s2);
          s4 = (if fless (temperature s3) (min_temp s3) then s3\<lparr>min_temp := temperature s3\<rparr> else s3);
          s5 = (if fgt (humidity s4) (max_humi s4) then s4\<lparr>max_humi := humidity s4\<rparr> else s4)
      in if fless (humidity s5) (min_humi s5) then s5\<lparr>min_humi := humidity s5\<rparr> else s5)"

text \<open>Lines 150 to 184: everything \<^verbatim>\<open>loop()\<close> does before it draws the two graphs.\<close>

definition loop_before_graphs :: "float \<Rightarrow> float \<Rightarrow> state \<Rightarrow> state" where
  "loop_before_graphs t h s =
     (let s1 = get_temperature_and_humidity t h s;
          s2 = emit [SetTextColor YELLOW, SetTextSize 2,
                     SetCursor 0 50, PrintFloat (temperature s1) 1, PrintChar 247, PrintText ''C'',
                     SetCursor 0 180, PrintFloat (humidity s1) 1, PrintText ''%''] s1;
          s3 = store_reading s2
      in emit [SetTextSize 1,
               SetTextColor RED,
               SetCursor 0 30, PrintFloat (max_temp s3) 1, PrintChar 247, PrintText ''C max'',
               SetCursor 0 160, PrintFloat (max_humi s3) 1, PrintText ''% max'',
               SetTextColor GREEN,
               SetCursor 0 77, PrintFloat (min_temp s3) 1, PrintChar 247, PrintText ''C min'',
               SetCursor 0 207, PrintFloat (min_humi s3) 1, PrintText ''% min'',
               SetTextColor WHITE] s3)"

text \<open>Lines 195 and 196, the body of the loop that scrolls both arrays.\<close>

definition shift_step :: "nat \<Rightarrow> state \<Rightarrow> state" where
  "shift_step i s =
     (let (v, s1) = rd Temp (i + 1) s;
          s2 = wr Temp i v s1;
          (w, s3) = rd Humi (i + 1) s2
      in wr Humi i w s3)"

text \<open>Lines 191 to 202: what \<^verbatim>\<open>loop()\<close> does after the two graphs.\<close>

definition loop_after_graphs :: "nat \<Rightarrow> state \<Rightarrow> state" where
  "loop_after_graphs mr s =
     (let s1 = s\<lparr>reading := reading s + 1\<rparr>;
          s2 = (if reading s1 > mr
                then (let s3 = s1\<lparr>reading := mr\<rparr>;
                          s4 = fold shift_step [1..<mr] s3;
                          s5 = wr Temp (reading s4) (temperature s4) s4
                      in wr Humi (reading s5) (humidity s5) s5)
                else s1)
      in emit [FillScreen BLACK] s2)"

definition loop :: "nat \<Rightarrow> float \<Rightarrow> float \<Rightarrow> state \<Rightarrow> fault + state" where
  "loop mr t h s =
     (case DrawGraph mr 105 20 200 80 50 ''Temperature'' Temp True False RED
             (loop_before_graphs t h s) of
        Inl e \<Rightarrow> Inl e
      | Inr s1 \<Rightarrow>
          (case DrawGraph mr 105 150 200 80 100 ''Humidity'' Humi False True BLUE s1 of
             Inl e \<Rightarrow> Inl e
           | Inr s2 \<Rightarrow> Inr (loop_after_graphs mr s2)))"

text \<open>
  The Arduino runtime calls \<^verbatim>\<open>setup()\<close> once and then \<^verbatim>\<open>loop()\<close> for ever; \<open>run\<close> is
  the calls of \<^verbatim>\<open>loop()\<close> for a list of sensor answers, one pair per call.
\<close>

primrec run :: "nat \<Rightarrow> (float \<times> float) list \<Rightarrow> state \<Rightarrow> fault + state" where
  "run mr [] s = Inr s"
| "run mr (r # rs) s =
     (case loop mr (fst r) (snd r) s of Inl e \<Rightarrow> Inl e | Inr s' \<Rightarrow> run mr rs s')"

definition boot :: "nat \<Rightarrow> state" where
  "boot mr = setup_sketch mr (initial mr)"

subsection \<open>Notions used to state the properties\<close>

text \<open>
  \<open>ext s cs zs\<close> is \<open>s\<close> after further calls \<open>cs\<close> on the display and further
  subscripts \<open>zs\<close>, with every variable of the sketch as it was.
\<close>

definition ext :: "state \<Rightarrow> tft_call list \<Rightarrow> (series \<times> nat) list \<Rightarrow> state" where
  "ext s cs zs = s\<lparr>tft := tft s @ cs, subscripts := subscripts s @ zs\<rparr>"

definition in_slots :: "nat \<Rightarrow> (series \<times> nat) list \<Rightarrow> bool" where
  "in_slots mr zs = list_all (\<lambda>z. 1 \<le> snd z \<and> snd z \<le> mr) zs"

definition grows :: "nat \<Rightarrow> state \<Rightarrow> state \<Rightarrow> bool" where
  "grows mr s s' = (\<exists>cs zs. s' = ext s cs zs \<and> in_slots mr zs)"

text \<open>The slots that \<^verbatim>\<open>DrawGraph\<close> scans and plots: indices 1 to \<open>mr\<close> of an array.\<close>

definition snapshot :: "nat \<Rightarrow> float list \<Rightarrow> float list" where
  "snapshot mr xs = take mr (drop 1 xs)"

text \<open>The calls on the display that one call of \<^verbatim>\<open>DrawGraph\<close> adds.\<close>

definition draw_calls ::
  "nat \<Rightarrow> int \<Rightarrow> int \<Rightarrow> int \<Rightarrow> int \<Rightarrow> int \<Rightarrow> string \<Rightarrow> series \<Rightarrow> bool \<Rightarrow> bool \<Rightarrow> int \<Rightarrow> state
     \<Rightarrow> fault + tft_call list" where
  "draw_calls mr x_pos y_pos width height Y1Max title DataArray auto_scale barchart_mode graph_colour s =
     map_sum id (\<lambda>s'. drop (length (tft s)) (tft s'))
       (DrawGraph mr x_pos y_pos width height Y1Max title DataArray auto_scale barchart_mode graph_colour s)"

text \<open>
  The value that a call of \<^verbatim>\<open>loop()\<close> appends to a series when the sensor answers \<open>r\<close>
  (lines 206, 207, 160 and 161): the answer plus the error offset.
\<close>

definition appended :: "series \<Rightarrow> float \<times> float \<Rightarrow> float" where
  "appended a r =
     (case a of
        Temp \<Rightarrow> fadd (fst r) (i2f temp_error_offset)
      | Humi \<Rightarrow> fadd (snd r) (i2f humi_error_offset))"

text \<open>The global that holds the last reading of a series.\<close>

definition current :: "series \<Rightarrow> state \<Rightarrow> float" where
  "current a s = (case a of Temp \<Rightarrow> temperature s | Humi \<Rightarrow> humidity s)"

text \<open>
  A sample that the scan of lines 89 to 91 can meet without an undefined conversion or
  sum: a number below \<open>2 ^ 31 - 8\<close>, which is converted when it is the greatest so
  far, or a value that line 90 never converts, because no \<^verbatim>\<open>int\<close> is below or equal
  to it.
\<close>

fun scannable :: "float \<Rightarrow> bool" where
  "scannable (Fin q) = (q < 2147483640)"
| "scannable PInf = False"
| "scannable NInf = True"
| "scannable NaN = True"

text \<open>
  A number of magnitude up to \<open>2 ^ 24\<close>, the range in which every integer is a binary32
  number.
\<close>

fun small :: "float \<Rightarrow> bool" where
  "small (Fin q) = (\<bar>q\<bar> \<le> 16777216)"
| "small PInf = False"
| "small NInf = False"
| "small NaN = False"

text \<open>
  An array after the first \<open>k - 1\<close> rounds of the scrolling loop of lines 194 to 197:
  slots 1 to \<open>k - 1\<close> hold what their right neighbours held.
\<close>

definition shifted :: "nat \<Rightarrow> float list \<Rightarrow> float list" where
  "shifted k xs = map (\<lambda>j. if 1 \<le> j \<and> j < k then xs ! (j + 1) else xs ! j) [0..<length xs]"

text \<open>
  Two states that have grown from \<open>s\<close> and from \<open>t\<close> by the same calls on the display
  and the same subscripts.
\<close>

definition sim :: "state \<Rightarrow> state \<Rightarrow> state \<Rightarrow> state \<Rightarrow> bool" where
  "sim s t s' t' = (\<exists>cs zs. s' = ext s cs zs \<and> t' = ext t cs zs)"

text \<open>
  The shape of the globals between two calls of \<^verbatim>\<open>loop()\<close>: \<^verbatim>\<open>reading\<close> is a slot from 1 to
  \<open>mr\<close>, both arrays have their \<open>mr + 1\<close> elements, and element 0 of each holds zero.
\<close>

definition sound :: "nat \<Rightarrow> state \<Rightarrow> bool" where
  "sound mr s =
     (1 \<le> reading s \<and> reading s \<le> mr
      \<and> length (temp_readings s) = mr + 1 \<and> length (humi_readings s) = mr + 1
      \<and> temp_readings s ! 0 = Fin 0 \<and> humi_readings s ! 0 = Fin 0)"

subsection \<open>Rounding to binary32\<close>

lemma pow2_powi: "pow2 k = 2 powi k"
  by (simp add: pow2_def power_int_def inverse_eq_divide power_one_over)

lemma pow2_pos: "0 < pow2 k"
  by (simp add: pow2_powi zero_less_power_int)

lemma pow2_add: "pow2 (a + b) = pow2 a * pow2 b"
  by (simp add: pow2_powi power_int_add)

lemma pow2_nat: "0 \<le> k \<Longrightarrow> pow2 k = 2 ^ nat k"
  by (simp add: pow2_def)

lemma pow2_mono: "a \<le> b \<Longrightarrow> pow2 a \<le> pow2 b"
  by (simp add: pow2_powi power_int_increasing)

lemma pow2_strict_mono:
  assumes "a < b" shows "pow2 a < pow2 b"
proof -
  have "pow2 b = pow2 a * pow2 (b - a)"
    using pow2_add [of a "b - a"] by simp
  moreover have "(2::rat) ^ 1 \<le> 2 ^ nat (b - a)"
    using assms by (intro power_increasing) simp_all
  then have "1 < pow2 (b - a)"
    using assms by (simp add: pow2_nat)
  ultimately show ?thesis
    using pow2_pos [of a] by simp
qed

lemma expo_search_ge: "- 126 \<le> expo_search n x"
  by (induction n) auto

lemma expo_search_le: "expo_search n x \<le> int n - 126"
  by (induction n) auto

lemma expo_search_below: "- 126 < expo_search n x \<Longrightarrow> pow2 (expo_search n x) \<le> x"
  by (induction n) (auto split: if_splits)

lemma expo_search_above:
  "pow2 k \<le> x \<Longrightarrow> - 125 \<le> k \<Longrightarrow> k \<le> int n - 126 \<Longrightarrow> k \<le> expo_search n x"
proof (induction n)
  case 0
  then show ?case by simp
next
  case (Suc n)
  show ?case
  proof (cases "pow2 (int n - 125) \<le> x")
    case True
    with Suc.prems show ?thesis by simp
  next
    case False
    with Suc.prems(1) have "k \<noteq> int n - 125" by auto
    with Suc.prems have "k \<le> int n - 126" by simp
    with Suc.IH Suc.prems False show ?thesis by simp
  qed
qed

lemma expo_ge: "- 126 \<le> expo q"
  by (simp add: expo_def expo_search_ge)

lemma expo_le: "expo q \<le> 127"
  using expo_search_le [of 253 "\<bar>q\<bar>"] by (simp add: expo_def)

lemma expo_above: "pow2 k \<le> \<bar>q\<bar> \<Longrightarrow> - 125 \<le> k \<Longrightarrow> k \<le> 127 \<Longrightarrow> k \<le> expo q"
  unfolding expo_def by (rule expo_search_above) simp_all

lemma expo_less:
  assumes "\<bar>q\<bar> < pow2 k" and "- 125 \<le> k" shows "expo q < k"
proof (cases "- 126 < expo q")
  case True
  then have "pow2 (expo q) \<le> \<bar>q\<bar>"
    unfolding expo_def by (rule expo_search_below)
  with assms(1) have "pow2 (expo q) < pow2 k" by simp
  then show ?thesis
    using pow2_mono [of k "expo q"] by (cases "expo q < k") auto
next
  case False
  with assms(2) show ?thesis by simp
qed

lemma ulp_pos: "0 < ulp q"
  by (simp add: ulp_def pow2_pos)

lemma round_half_even_of_int: "round_half_even (of_int k) = k"
  by (simp add: round_half_even_def)

lemma round_half_even_ge:
  assumes "of_int a \<le> x" shows "a \<le> round_half_even x"
proof -
  from assms have "a \<le> \<lfloor>x\<rfloor>" by (simp add: le_floor_iff)
  then show ?thesis by (simp add: round_half_even_def Let_def)
qed

lemma round_half_even_le:
  assumes "x \<le> of_int b" shows "round_half_even x \<le> b"
proof (cases "x = of_int \<lfloor>x\<rfloor>")
  case True
  then have "round_half_even x = \<lfloor>x\<rfloor>"
    using round_half_even_of_int [of "\<lfloor>x\<rfloor>"] by simp
  with assms show ?thesis by (simp add: floor_le_iff)
next
  case False
  then have "of_int \<lfloor>x\<rfloor> < x" using of_int_floor_le [of x] by linarith
  with assms have "\<lfloor>x\<rfloor> < b" by (metis less_le_trans of_int_less_iff)
  moreover have "round_half_even x \<le> \<lfloor>x\<rfloor> + 1"
    by (simp add: round_half_even_def Let_def)
  ultimately show ?thesis by simp
qed

lemma two_24_le_max_float: "16777216 \<le> max_float"
  by (simp add: max_float_def)

lemma rnd_Fin:
  assumes "r = of_int (round_half_even (q / ulp q)) * ulp q" and "\<bar>r\<bar> \<le> max_float"
  shows "rnd q = Fin r"
  using assms by (auto simp: rnd_def Let_def)

lemma rnd_exact:
  assumes "q = of_int k * ulp q" and "\<bar>q\<bar> \<le> max_float"
  shows "rnd q = Fin q"
proof (rule rnd_Fin)
  have "q / ulp q = of_int k"
    using ulp_pos [of q] assms(1) by (metis less_irrefl nonzero_eq_divide_eq)
  then show "q = of_int (round_half_even (q / ulp q)) * ulp q"
    using assms(1) by (simp add: round_half_even_of_int)
qed (rule assms)

lemma binary32D:
  assumes "binary32 q" shows "\<exists>k. q = of_int k * ulp q"
proof -
  from assms have "q = of_int (round_half_even (q / ulp q)) * ulp q"
    by (auto simp: binary32_def rnd_def Let_def split: if_splits)
  then show ?thesis ..
qed

lemma binary32_max: "binary32 q \<Longrightarrow> \<bar>q\<bar> \<le> max_float"
  by (auto simp: binary32_def rnd_def Let_def split: if_splits)

lemma binary32_multiple:
  assumes "binary32 q" and "pow2 j \<le> \<bar>q\<bar>" and "23 \<le> j" and "j \<le> 127"
  shows "\<exists>k. q = of_int k * 2 ^ nat (j - 23)"
proof -
  from binary32D [OF assms(1)] obtain k where k: "q = of_int k * ulp q" ..
  from assms have "j \<le> expo q" by (intro expo_above) simp_all
  then have "pow2 (expo q - 23) = pow2 (expo q - j) * pow2 (j - 23)"
    using pow2_add [of "expo q - j" "j - 23"] by simp
  also have "\<dots> = of_int (2 ^ nat (expo q - j)) * 2 ^ nat (j - 23)"
    using \<open>j \<le> expo q\<close> assms(3) by (simp add: pow2_nat)
  finally have "q = of_int (k * 2 ^ nat (expo q - j)) * 2 ^ nat (j - 23)"
    using k by (simp add: ulp_def)
  then show ?thesis ..
qed

lemma ulp_small:
  assumes "\<bar>q\<bar> < 16777216"
  shows "\<exists>n. ulp q * 2 ^ n = 1"
proof -
  have "\<bar>q\<bar> < pow2 24" using assms by (simp add: pow2_nat)
  then have "expo q < 24" by (rule expo_less) simp
  then have "pow2 (expo q - 23) * pow2 (23 - expo q) = 1"
    using pow2_add [of "expo q - 23" "23 - expo q"] by (simp add: pow2_def)
  moreover have "pow2 (23 - expo q) = 2 ^ nat (23 - expo q)"
    using \<open>expo q < 24\<close> by (simp add: pow2_nat)
  ultimately show ?thesis by (auto simp: ulp_def)
qed

lemma rnd_between:
  assumes lo: "of_int lo \<le> q" and hi: "q \<le> of_int hi"
    and "\<bar>lo\<bar> \<le> 16777216" and "\<bar>hi\<bar> \<le> 16777216"
  shows "\<exists>r. rnd q = Fin r \<and> of_int lo \<le> r \<and> r \<le> of_int hi"
proof (cases "\<bar>q\<bar> < 16777216")
  case True
  from ulp_small [OF this] obtain n where n: "ulp q * 2 ^ n = 1" ..
  let ?u = "ulp q"
  let ?r = "of_int (round_half_even (q / ?u)) * ?u"
  have u: "0 < ?u" by (rule ulp_pos)
  have inv: "1 / ?u = 2 ^ n" using n u by (simp add: field_simps)
  have unscale: "of_int (k * 2 ^ n) * ?u = of_int k" for k :: int
  proof -
    have "of_int (k * 2 ^ n) * ?u = of_int k * (?u * 2 ^ n)" by simp
    then show ?thesis unfolding n by simp
  qed
  have "of_int lo / ?u = of_int lo * (1 / ?u)" by simp
  then have "of_int (lo * 2 ^ n) = of_int lo / ?u"
    unfolding inv by simp
  also have "\<dots> \<le> q / ?u" using lo u by (simp add: divide_right_mono)
  finally have "lo * 2 ^ n \<le> round_half_even (q / ?u)" by (rule round_half_even_ge)
  then have "(of_int (lo * 2 ^ n) :: rat) \<le> of_int (round_half_even (q / ?u))"
    by (simp only: of_int_le_iff)
  then have "of_int (lo * 2 ^ n) * ?u \<le> ?r" using u by (simp only: mult_le_cancel_right) simp
  then have 1: "of_int lo \<le> ?r" by (simp only: unscale)
  have "q / ?u \<le> of_int hi / ?u" using hi u by (simp add: divide_right_mono)
  also have "of_int hi / ?u = of_int hi * (1 / ?u)" by simp
  also have "\<dots> = of_int (hi * 2 ^ n)" unfolding inv by simp
  finally have "round_half_even (q / ?u) \<le> hi * 2 ^ n" by (rule round_half_even_le)
  then have "(of_int (round_half_even (q / ?u)) :: rat) \<le> of_int (hi * 2 ^ n)"
    by (simp only: of_int_le_iff)
  then have "?r \<le> of_int (hi * 2 ^ n) * ?u" using u by (simp only: mult_le_cancel_right) simp
  then have 2: "?r \<le> of_int hi" by (simp only: unscale)
  have "(of_int lo :: rat) \<ge> - 16777216" "(of_int hi :: rat) \<le> 16777216"
    using assms(3,4) by (simp_all add: abs_le_iff)
  with 1 2 have "\<bar>?r\<bar> \<le> 16777216" by (simp add: abs_le_iff)
  with two_24_le_max_float have "\<bar>?r\<bar> \<le> max_float" by simp
  with rnd_Fin [OF refl this] 1 2 show ?thesis by blast
next
  case False
  have b: "(of_int lo :: rat) \<ge> - 16777216" "(of_int hi :: rat) \<le> 16777216"
    using assms(3,4) by (simp_all add: abs_le_iff)
  with lo hi False have q: "\<bar>q\<bar> = 16777216" by (simp add: abs_if split: if_splits)
  then have "pow2 24 \<le> \<bar>q\<bar>" "\<bar>q\<bar> < pow2 25" by (simp_all add: pow2_nat)
  then have "24 \<le> expo q" "expo q < 25"
    by (simp_all add: expo_above expo_less)
  then have "expo q = 24" by simp
  then have u: "ulp q = 2" by (simp add: ulp_def pow2_nat)
  from q have "q = of_int 8388608 * ulp q \<or> q = of_int (- 8388608) * ulp q"
    unfolding u by (simp add: abs_if split: if_splits)
  moreover have "\<bar>q\<bar> \<le> max_float" using q two_24_le_max_float by simp
  ultimately have "rnd q = Fin q" using rnd_exact by blast
  with lo hi show ?thesis by blast
qed

lemma rnd_of_int:
  assumes "\<bar>k\<bar> \<le> 16777216" shows "rnd (of_int k) = Fin (of_int k)"
  using rnd_between [of k "of_int k" k] assms by auto

lemma rnd_0 [simp]: "rnd 0 = Fin 0"
  using rnd_of_int [of 0] by simp

lemma rnd_1 [simp]: "rnd 1 = Fin 1"
  using rnd_of_int [of 1] by simp

lemma rnd_numeral [simp]:
  "numeral n \<le> (16777216 :: int) \<Longrightarrow> rnd (numeral n) = Fin (numeral n)"
  using rnd_of_int [of "numeral n"] by simp

lemma rnd_neg_numeral [simp]:
  "numeral n \<le> (16777216 :: int) \<Longrightarrow> rnd (- numeral n) = Fin (- numeral n)"
  using rnd_of_int [of "- numeral n"] by simp

lemma i2f_exact: "\<bar>k\<bar> \<le> 16777216 \<Longrightarrow> i2f k = Fin (of_int k)"
  by (simp add: i2f_def rnd_of_int)

lemma i2f_0 [simp]: "i2f 0 = Fin 0"
  by (simp add: i2f_def)

lemma i2f_1 [simp]: "i2f 1 = Fin 1"
  by (simp add: i2f_def)

lemma rnd_nonneg:
  assumes "0 \<le> q" shows "rnd q = PInf \<or> (\<exists>r. rnd q = Fin r \<and> 0 \<le> r)"
proof -
  have "0 \<le> q / ulp q" using assms ulp_pos [of q] by simp
  then have "0 \<le> round_half_even (q / ulp q)"
    using round_half_even_ge [of 0 "q / ulp q"] by simp
  then have "0 \<le> of_int (round_half_even (q / ulp q)) * ulp q"
    using ulp_pos [of q] by simp
  then show ?thesis
    using two_24_le_max_float by (auto simp: rnd_def Let_def)
qed

lemma binary32_integer:
  assumes "binary32 q" and "8388608 \<le> \<bar>q\<bar>" shows "\<exists>k. q = of_int k"
proof -
  from binary32_multiple [OF assms(1), of 23] assms(2) show ?thesis
    by (simp add: pow2_nat)
qed

lemma binary32_floor:
  assumes "binary32 q" shows "rnd (of_int \<lfloor>q\<rfloor>) = Fin (of_int \<lfloor>q\<rfloor>)"
proof (cases "8388608 \<le> \<bar>q\<bar>")
  case True
  from binary32_integer [OF assms this] obtain k where "q = of_int k" ..
  with assms show ?thesis by (simp add: binary32_def)
next
  case False
  then have "- 8388608 \<le> q" "q \<le> 8388608" by (simp_all add: abs_if split: if_splits)
  then have "- 8388608 \<le> \<lfloor>q\<rfloor>" "\<lfloor>q\<rfloor> \<le> 8388608"
    by (simp_all add: le_floor_iff floor_le_iff) 
  then show ?thesis by (intro rnd_of_int) linarith
qed

lemma i2f_numeral [simp]:
  "numeral n \<le> (16777216 :: int) \<Longrightarrow> i2f (numeral n) = Fin (numeral n)"
  using i2f_exact [of "numeral n"] by simp

lemma i2f_neg_numeral [simp]:
  "numeral n \<le> (16777216 :: int) \<Longrightarrow> i2f (- numeral n) = Fin (- numeral n)"
  using i2f_exact [of "- numeral n"] by simp

lemma rnd_neg_1 [simp]: "rnd (- 1) = Fin (- 1)"
  using rnd_of_int [of "- 1"] by simp

lemma expo_eq:
  assumes "pow2 e \<le> \<bar>q\<bar>" and "\<bar>q\<bar> < pow2 (e + 1)" and "- 125 \<le> e" and "e \<le> 127"
  shows "expo q = e"
proof -
  have "e \<le> expo q" using assms(1,3,4) by (rule expo_above)
  moreover have "expo q < e + 1" using assms(2,3) by (intro expo_less) simp_all
  ultimately show ?thesis by simp
qed

lemma rnd_eq:
  assumes "pow2 e \<le> \<bar>q\<bar>" and "\<bar>q\<bar> < pow2 (e + 1)" and "- 125 \<le> e" and "e \<le> 127"
  shows "rnd q =
           (let r = of_int (round_half_even (q / pow2 (e - 23))) * pow2 (e - 23)
            in if max_float < r then PInf else if r < - max_float then NInf else Fin r)"
  unfolding rnd_def ulp_def expo_eq [OF assms] ..

lemma round_half_even_eq:
  assumes "of_int f \<le> x" and "x < of_int f + 1"
  shows "round_half_even x =
           (if x - of_int f < 1 / 2 then f else if 1 / 2 < x - of_int f then f + 1
            else if even f then f else f + 1)"
proof -
  from assms have "\<lfloor>x\<rfloor> = f" by (intro floor_unique) simp_all
  then show ?thesis by (simp add: round_half_even_def Let_def)
qed

lemma rnd_value:
  assumes "pow2 e \<le> \<bar>q\<bar>" and "\<bar>q\<bar> < pow2 (e + 1)" and "- 125 \<le> e" and "e \<le> 127"
    and "of_int f \<le> q / pow2 (e - 23)" and "q / pow2 (e - 23) < of_int f + 1"
  shows "rnd q =
           (let d = q / pow2 (e - 23) - of_int f;
                k = (if d < 1 / 2 then f else if 1 / 2 < d then f + 1 else if even f then f else f + 1);
                r = of_int k * pow2 (e - 23)
            in if max_float < r then PInf else if r < - max_float then NInf else Fin r)"
  unfolding rnd_eq [OF assms(1-4)] round_half_even_eq [OF assms(5,6)] Let_def ..

section \<open>Proofs\<close>

subsection \<open>What a call of DrawGraph can change\<close>

lemma ext_fields [simp]:
  "temperature (ext s cs zs) = temperature s"
  "humidity (ext s cs zs) = humidity s"
  "min_temp (ext s cs zs) = min_temp s"
  "max_temp (ext s cs zs) = max_temp s"
  "min_humi (ext s cs zs) = min_humi s"
  "max_humi (ext s cs zs) = max_humi s"
  "temp_readings (ext s cs zs) = temp_readings s"
  "humi_readings (ext s cs zs) = humi_readings s"
  "reading (ext s cs zs) = reading s"
  "serial (ext s cs zs) = serial s"
  "tft (ext s cs zs) = tft s @ cs"
  "subscripts (ext s cs zs) = subscripts s @ zs"
  by (simp_all add: ext_def)

lemma elems_ext [simp]: "elems a (ext s cs zs) = elems a s"
  by (simp add: elems_def split: series.split)

lemma ext_Nil [simp]: "ext s [] [] = s"
  by (simp add: ext_def)

lemma ext_ext [simp]: "ext (ext s cs zs) cs' zs' = ext s (cs @ cs') (zs @ zs')"
  by (simp add: ext_def)

lemma emit_ext: "emit cs s = ext s cs []"
  by (simp add: emit_def ext_def)

lemma subscripted_ext: "subscripted a i s = ext s [] [(a, i)]"
  by (simp add: subscripted_def ext_def)

lemma rd_ext: "rd a i s = (elems a s ! i, ext s [] [(a, i)])"
  by (simp add: rd_def subscripted_ext)

lemma in_slots_simps [simp]:
  "in_slots mr []"
  "in_slots mr (z # zs) = (1 \<le> snd z \<and> snd z \<le> mr \<and> in_slots mr zs)"
  "in_slots mr (zs @ zs') = (in_slots mr zs \<and> in_slots mr zs')"
  by (auto simp: in_slots_def)

lemma grows_refl [simp]: "grows mr s s"
  unfolding grows_def by (rule exI [of _ "[]"], rule exI [of _ "[]"]) simp

lemma grows_trans: "grows mr s s' \<Longrightarrow> grows mr s' s'' \<Longrightarrow> grows mr s s''"
  unfolding grows_def by (metis ext_ext in_slots_simps(3))

lemma grows_ext: "in_slots mr zs \<Longrightarrow> grows mr s (ext s cs zs)"
  unfolding grows_def by blast

lemma grows_ext2: "grows mr s s' \<Longrightarrow> in_slots mr zs \<Longrightarrow> grows mr s (ext s' cs zs)"
  by (blast intro: grows_trans grows_ext)

lemma for_each_Inr_inv:
  assumes "for_each ixs body x = Inr x'" and "I x"
    and "\<And>i y y'. i \<in> set ixs \<Longrightarrow> I y \<Longrightarrow> body i y = Inr y' \<Longrightarrow> I y'"
  shows "I x'"
  using assms
proof (induction ixs arbitrary: x)
  case Nil
  then show ?case by simp
next
  case (Cons i ixs)
  from Cons.prems(1) obtain y where y: "body i x = Inr y" and r: "for_each ixs body y = Inr x'"
    by (auto split: sum.splits)
  have "I y" using Cons.prems(3) [OF _ Cons.prems(2) y] by simp
  with r show ?case using Cons.IH Cons.prems(3) by (metis list.set_intros(2))
qed

lemma fold_inv:
  assumes "I x" and "\<And>i y. i \<in> set ixs \<Longrightarrow> I y \<Longrightarrow> I (f i y)"
  shows "I (fold f ixs x)"
  using assms by (induction ixs arbitrary: x) auto

lemma scan_step_grows:
  assumes "scan_step a i (m, s0) = Inr (m', s')" and "1 \<le> i" and "i \<le> mr" and "grows mr s s0"
  shows "grows mr s s'"
  using assms
  by (auto simp: scan_step_def rd_ext Let_def split: if_splits option.splits intro!: grows_ext2)

lemma resolve_Y1Max_auto:
  assumes "resolve_Y1Max mr Y1Max a True s = Inr (U, s')"
  obtains m where "for_each [1..<Suc mr] (scan_step a) (0, s) = Inr (m, s')"
    and "m + auto_scale_major_tick + 2 \<le> INT_MAX"
    and "U = (if ((m + auto_scale_major_tick + 2) sdiv auto_scale_major_tick) * auto_scale_major_tick < Y1Max
              then ((m + auto_scale_major_tick + 2) sdiv auto_scale_major_tick) * auto_scale_major_tick
              else Y1Max)"
  using assms
  by (auto simp: resolve_Y1Max_def Let_def simp del: upt_Suc split: sum.splits if_splits)

lemma resolve_Y1Max_grows:
  assumes "resolve_Y1Max mr Y1Max a auto_scale s = Inr (U, s')"
  shows "grows mr s s'"
proof (cases auto_scale)
  case False
  with assms show ?thesis by (simp add: resolve_Y1Max_def)
next
  case True
  with assms obtain m where fe: "for_each [1..<Suc mr] (scan_step a) (0, s) = Inr (m, s')"
    by (auto elim: resolve_Y1Max_auto)
  have "grows mr s (snd (m, s'))"
  proof (rule for_each_Inr_inv [OF fe, where I = "\<lambda>p. grows mr s (snd p)"])
    show "grows mr s (snd (0::int, s))" by simp
  next
    fix i y y' assume "i \<in> set [1..<Suc mr]" "grows mr s (snd y)" "scan_step a i y = Inr y'"
    then show "grows mr s (snd y')"
      using scan_step_grows [of a i "fst y" "snd y" "fst y'" "snd y'" mr s] by auto
  qed
  then show ?thesis by simp
qed

lemma plot_step_grows:
  assumes "plot_step mr x y w h U a b c gx s0 = Inr s'" and "1 \<le> gx" and "gx \<le> mr" and "grows mr s s0"
  shows "grows mr s s'"
  using assms
  by (auto simp: plot_step_def rd_ext emit_ext Let_def split: if_splits option.splits intro!: grows_ext2)

lemma grid_step_grows:
  assumes "grows mr s s0"
  shows "grows mr s (grid_step x y w h U spacing s0)"
proof -
  have "grows mr s (fold (\<lambda>j t.
                 if spacing < yticks
                 then emit [DrawFastHLine (x + 1 + (j * w) sdiv number_of_dashes)
                                          (y + (h * spacing) sdiv yticks)
                                          (w sdiv (2 * number_of_dashes)) WHITE] t
                 else t) [0..number_of_dashes - 1] s0)"
    by (rule fold_inv [where I = "grows mr s", OF assms]) (auto simp: emit_ext intro: grows_ext2)
  then show ?thesis
    by (simp add: grid_step_def Let_def emit_ext grows_ext2)
qed

lemma DrawGraph_grows:
  assumes "DrawGraph mr x y w h Y1Max title a auto_scale b c s = Inr s'"
  shows "grows mr s s'"
proof -
  from assms obtain U s1 s3 where
    r: "resolve_Y1Max mr Y1Max a auto_scale s = Inr (U, s1)" and
    p: "for_each [1..<Suc mr] (plot_step mr x y w h U a b c)
          (emit [DrawRect x y (w + 2) (h + 3) WHITE, SetTextSize 2, SetTextColor c,
                 SetCursor (title_x x w title) (y - 20), PrintText title, SetTextSize 1] s1) = Inr s3" and
    g: "s' = fold (grid_step x y w h U) [0..yticks] s3"
    by (auto simp: DrawGraph_def Let_def split: sum.splits)
  have g1: "grows mr s s1" using r by (rule resolve_Y1Max_grows)
  have g3: "grows mr s s3"
  proof (rule for_each_Inr_inv [OF p, where I = "grows mr s"])
    show "grows mr s (emit [DrawRect x y (w + 2) (h + 3) WHITE, SetTextSize 2, SetTextColor c,
                 SetCursor (title_x x w title) (y - 20), PrintText title, SetTextSize 1] s1)"
      using g1 by (simp add: emit_ext grows_ext2)
  next
    fix i y0 y' assume "i \<in> set [1..<Suc mr]" "grows mr s y0" "plot_step mr x y w h U a b c i y0 = Inr y'"
    then show "grows mr s y'" using plot_step_grows [of mr x y w h U a b c i y0 y' s] by auto
  qed
  show ?thesis unfolding g by (rule fold_inv [where I = "grows mr s", OF g3]) (rule grid_step_grows)
qed

subsection \<open>The scaled coordinate and the scan\<close>

lemma f2i_Fin_between:
  assumes "of_int a \<le> q" and "q \<le> of_int b" and "INT_MIN \<le> a" and "b \<le> INT_MAX"
  shows "\<exists>v. f2i (Fin q) = Some v \<and> a \<le> v \<and> v \<le> b"
proof -
  let ?k = "if 0 \<le> q then \<lfloor>q\<rfloor> else \<lceil>q\<rceil>"
  have "a \<le> \<lceil>q\<rceil>" using assms(1) by (meson le_of_int_ceiling of_int_le_iff order_trans)
  moreover have "\<lceil>q\<rceil> \<le> b" using assms(2) by (simp add: ceiling_le_iff)
  moreover have "a \<le> \<lfloor>q\<rfloor>" using assms(1) by (simp add: le_floor_iff)
  moreover have "\<lfloor>q\<rfloor> \<le> b" using assms(2) by (simp add: floor_le_iff)
  ultimately have k: "a \<le> ?k" "?k \<le> b" by simp_all
  with assms(3,4) have "INT_MIN \<le> ?k \<and> ?k \<le> INT_MAX" by linarith
  then have "f2i (Fin q) = Some ?k" by (simp add: Let_def)
  with k show ?thesis by blast
qed

lemma constrain_Fin:
  assumes "d \<noteq> NaN" and "0 \<le> U" and "U \<le> 16777216"
  shows "\<exists>c. constrain d (i2f 0) (i2f U) = Fin c \<and> 0 \<le> c \<and> c \<le> of_int U"
proof -
  have "i2f U = Fin (of_int U)" using assms(2,3) by (intro i2f_exact) simp
  with assms(1,2) show ?thesis
    by (cases d) (auto simp: constrain_def fgt_def)
qed

lemma scaled_y_between:
  assumes d: "d \<noteq> NaN" and U: "0 < U" "U \<le> 16777216" and h: "0 \<le> h"
    and Uh: "U * h \<le> 16777216" and y: "\<bar>y\<bar> + h < 16777216"
  shows "\<exists>r. scaled_y y h d U = Fin r \<and> of_int (y + 1) \<le> r \<and> r \<le> of_int (y + h + 1)"
proof -
  from constrain_Fin [OF d, of U] U obtain c where
    c: "constrain d (i2f 0) (i2f U) = Fin c" "0 \<le> c" "c \<le> of_int U" by auto
  have iU: "i2f U = Fin (of_int U)" using U by (intro i2f_exact) simp
  have ih: "i2f h = Fin (of_int h)" using h y by (intro i2f_exact) simp
  have iyh: "i2f (y + h) = Fin (of_int (y + h))" using h y by (intro i2f_exact) simp
  have rU: "(0::rat) < of_int U" and rh: "(0::rat) \<le> of_int h" using U h by simp_all
  have "c * of_int h \<le> of_int U * of_int h" using c(3) rh by (rule mult_right_mono)
  then have "of_int 0 \<le> c * of_int h" "c * of_int h \<le> of_int (U * h)"
    using c(2) rh by simp_all
  moreover have "\<bar>U * h\<bar> \<le> 16777216" using U h Uh by (simp add: abs_mult)
  ultimately have "\<exists>r. rnd (c * of_int h) = Fin r \<and> of_int 0 \<le> r \<and> r \<le> of_int (U * h)"
    by (intro rnd_between) simp_all
  then obtain p where
    p: "rnd (c * of_int h) = Fin p" "0 \<le> p" "p \<le> of_int (U * h)" by auto
  have "p / of_int U \<le> of_int h"
    using p(3) rU by (simp add: pos_divide_le_eq mult.commute)
  moreover have "of_int 0 \<le> p / of_int U" using p(2) rU by simp
  ultimately have "\<exists>r. rnd (p / of_int U) = Fin r \<and> of_int 0 \<le> r \<and> r \<le> of_int h"
    using h y by (intro rnd_between) simp_all
  then obtain w where w: "rnd (p / of_int U) = Fin w" "0 \<le> w" "w \<le> of_int h" by auto
  have "of_int y \<le> of_int (y + h) + - w" "of_int (y + h) + - w \<le> of_int (y + h)"
    using w(2,3) by simp_all
  then have "\<exists>r. rnd (of_int (y + h) + - w) = Fin r \<and> of_int y \<le> r \<and> r \<le> of_int (y + h)"
    using h y by (intro rnd_between) simp_all
  then obtain z where z: "rnd (of_int (y + h) + - w) = Fin z" "of_int y \<le> z" "z \<le> of_int (y + h)"
    by auto
  have "of_int (y + 1) \<le> z + 1" "z + 1 \<le> of_int (y + h + 1)"
    using z(2,3) by simp_all
  then have "\<exists>r. rnd (z + 1) = Fin r \<and> of_int (y + 1) \<le> r \<and> r \<le> of_int (y + h + 1)"
    using h y by (intro rnd_between) simp_all
  moreover have "scaled_y y h d U = rnd (z + 1)"
  proof -
    have 1: "fmul (Fin c) (Fin (of_int h)) = Fin p" by (simp add: p(1))
    have 2: "fdiv (Fin p) (Fin (of_int U)) = Fin w" using rU by (simp add: w(1))
    have 3: "fsub (Fin (of_int (y + h))) (Fin w) = Fin z"
      unfolding fsub_def fneg.simps fadd.simps by (rule z(1))
    have 4: "fadd (Fin z) (i2f 1) = rnd (z + 1)" by simp
    have 0: "constrain d (i2f 0) (Fin (of_int U)) = Fin c" using c(1) unfolding iU .
    show ?thesis unfolding scaled_y_def iU ih iyh 0 1 2 3 4 ..
  qed
  ultimately show ?thesis by simp
qed

lemma scaled_y_defined:
  assumes "d \<noteq> NaN" and "0 < U" and "U \<le> 16777216" and "0 \<le> h"
    and "U * h \<le> 16777216" and "\<bar>y\<bar> + h < 16777216"
  shows "\<exists>v. f2i (scaled_y y h d U) = Some v \<and> y + 1 \<le> v \<and> v \<le> y + h + 1"
proof -
  from scaled_y_between [OF assms] obtain r where
    r: "scaled_y y h d U = Fin r" "of_int (y + 1) \<le> r" "r \<le> of_int (y + h + 1)" by blast
  have "INT_MIN \<le> y + 1" "y + h + 1 \<le> INT_MAX"
    using assms(4,6) by (simp_all add: INT_MIN_def INT_MAX_def)
  from f2i_Fin_between [OF r(2,3) this] show ?thesis unfolding r(1) .
qed

lemma sdiv_nonneg: "0 \<le> a \<Longrightarrow> 0 < b \<Longrightarrow> (a::int) sdiv b = a div b"
  by (simp add: signed_divide_int_def sgn_if)

lemma fle_i2f_nonneg:
  assumes "fle (i2f m) d" and "0 \<le> m" and "f2i d = Some k"
  shows "0 \<le> k"
proof (cases d)
  case (Fin q)
  from rnd_nonneg [of "of_int m"] assms(2)
  have "i2f m = PInf \<or> (\<exists>r. i2f m = Fin r \<and> 0 \<le> r)" by (simp add: i2f_def)
  with assms(1) Fin have "0 \<le> q" by auto
  with assms(3) Fin show ?thesis by (auto simp: Let_def split: if_splits)
qed (use assms in auto)

lemma scan_step_nonneg:
  assumes "scan_step a i (m, s) = Inr (m', s')" and "0 \<le> m"
  shows "0 \<le> m'"
  using assms fle_i2f_nonneg [of m "elems a s ! i" m']
  by (auto simp: scan_step_def rd_ext Let_def split: if_splits option.splits)

lemma scan_nonneg:
  assumes "for_each ixs (scan_step a) (m, s) = Inr (m', s')" and "0 \<le> m"
  shows "0 \<le> m'"
proof -
  have "0 \<le> fst (m', s')"
  proof (rule for_each_Inr_inv [OF assms(1), where I = "\<lambda>p. 0 \<le> fst p"])
    show "0 \<le> fst (m, s)" using assms(2) by simp
  next
    fix i y y' assume "0 \<le> fst y" "scan_step a i y = Inr y'"
    then show "0 \<le> fst y'"
      using scan_step_nonneg [of a i "fst y" "snd y" "fst y'" "snd y'"] by simp
  qed
  then show ?thesis by simp
qed

lemma resolve_Y1Max_pos:
  assumes "0 < Y1Max" and "resolve_Y1Max mr Y1Max a auto_scale s = Inr (U, s')"
  shows "0 < U"
proof (cases auto_scale)
  case False
  with assms show ?thesis by (simp add: resolve_Y1Max_def)
next
  case True
  from assms(2) True have "resolve_Y1Max mr Y1Max a True s = Inr (U, s')" by simp
  then obtain m where
    fe: "for_each [1..<Suc mr] (scan_step a) (0, s) = Inr (m, s')" and
    "m + auto_scale_major_tick + 2 \<le> INT_MAX" and
    U: "U = (if ((m + auto_scale_major_tick + 2) sdiv auto_scale_major_tick) * auto_scale_major_tick < Y1Max
             then ((m + auto_scale_major_tick + 2) sdiv auto_scale_major_tick) * auto_scale_major_tick
             else Y1Max)"
    by (rule resolve_Y1Max_auto)
  have "0 \<le> m" using scan_nonneg [OF fe] by simp
  then have "0 < ((m + 5 + 2) sdiv 5) * 5" by (simp add: sdiv_nonneg)
  with U assms(1) show ?thesis by (simp add: auto_scale_major_tick_def)
qed

lemma resolve_Y1Max_le:
  assumes "resolve_Y1Max mr Y1Max a auto_scale s = Inr (U, s')"
  shows "U \<le> Y1Max"
  using assms
  by (auto simp: resolve_Y1Max_def Let_def simp del: upt_Suc split: if_splits sum.splits)

subsection \<open>When the calls are defined\<close>

lemma wr_fields [simp]:
  "temperature (wr a i v s) = temperature s"
  "humidity (wr a i v s) = humidity s"
  "min_temp (wr a i v s) = min_temp s"
  "max_temp (wr a i v s) = max_temp s"
  "min_humi (wr a i v s) = min_humi s"
  "max_humi (wr a i v s) = max_humi s"
  "reading (wr a i v s) = reading s"
  "serial (wr a i v s) = serial s"
  "tft (wr a i v s) = tft s"
  "subscripts (wr a i v s) = subscripts s @ [(a, i)]"
  by (simp_all add: wr_def subscripted_def split: series.split)

lemma elems_wr: "elems b (wr a i v s) = (if a = b then (elems b s)[i := v] else elems b s)"
  by (cases a; cases b) (simp_all add: wr_def subscripted_def elems_def)

lemma emit_fields [simp]:
  "temperature (emit cs s) = temperature s"
  "humidity (emit cs s) = humidity s"
  "min_temp (emit cs s) = min_temp s"
  "max_temp (emit cs s) = max_temp s"
  "min_humi (emit cs s) = min_humi s"
  "max_humi (emit cs s) = max_humi s"
  "reading (emit cs s) = reading s"
  "serial (emit cs s) = serial s"
  "tft (emit cs s) = tft s @ cs"
  "subscripts (emit cs s) = subscripts s"
  "temp_readings (emit cs s) = temp_readings s"
  "humi_readings (emit cs s) = humi_readings s"
  "elems a (emit cs s) = elems a s"
  by (simp_all add: emit_def elems_def split: series.split)

lemma replicate_update_same: "(replicate n x)[i := x] = replicate n x"
  by (cases "i < n") (auto simp: nth_list_update intro!: nth_equalityI)

lemma boot_fields:
  "elems a (boot mr) = replicate (mr + 1) (Fin 0)"
  "reading (boot mr) = 1"
  "min_temp (boot mr) = Fin 100"
  "max_temp (boot mr) = Fin (- 100)"
  "min_humi (boot mr) = Fin 100"
  "max_humi (boot mr) = Fin (- 100)"
proof -
  let ?I = "\<lambda>t. (\<forall>b. elems b t = replicate (mr + 1) (Fin 0)) \<and> reading t = 1
               \<and> min_temp t = Fin 100 \<and> max_temp t = Fin (- 100)
               \<and> min_humi t = Fin 100 \<and> max_humi t = Fin (- 100)"
  have "?I (boot mr)"
    unfolding boot_def setup_sketch_def
  proof (rule fold_inv [where I = ?I])
    show "?I (emit [TftBegin, SetRotation 3, SetTextSize 2, SetTextColor WHITE, FillScreen BLACK] (initial mr))"
      by (auto simp: initial_def elems_def split: series.split)
  next
    fix i y assume "?I y"
    then show "?I (wr Humi i (i2f 0) (wr Temp i (i2f 0) y))"
      by (simp add: elems_wr replicate_update_same del: replicate_Suc replicate.simps)
  qed
  then show
    "elems a (boot mr) = replicate (mr + 1) (Fin 0)"
    "reading (boot mr) = 1"
    "min_temp (boot mr) = Fin 100"
    "max_temp (boot mr) = Fin (- 100)"
    "min_humi (boot mr) = Fin 100"
    "max_humi (boot mr) = Fin (- 100)"
    by simp_all
qed

lemma for_each_prefix:
  assumes "I pre x"
    and "\<And>p i y. i \<in> set ixs \<Longrightarrow> I p y \<Longrightarrow> \<exists>y'. body i y = Inr y' \<and> I (p @ [i]) y'"
  shows "\<exists>x'. for_each ixs body x = Inr x' \<and> I (pre @ ixs) x'"
  using assms
proof (induction ixs arbitrary: pre x)
  case Nil
  then show ?case by simp
next
  case (Cons i ixs)
  from Cons.prems(2) [of i pre x] Cons.prems(1) obtain y where
    y: "body i x = Inr y" "I (pre @ [i]) y" by auto
  have "\<exists>x'. for_each ixs body y = Inr x' \<and> I ((pre @ [i]) @ ixs) x'"
    by (rule Cons.IH [OF y(2)]) (use Cons.prems(2) in auto)
  with y(1) show ?case by simp
qed

lemma for_each_defined:
  assumes "I x" and "\<And>i y. i \<in> set ixs \<Longrightarrow> I y \<Longrightarrow> \<exists>y'. body i y = Inr y' \<and> I y'"
  shows "\<exists>x'. for_each ixs body x = Inr x' \<and> I x'"
  using for_each_prefix [where I = "\<lambda>p. I" and pre = "[]", OF assms(1)] assms(2) by blast

lemma scan_step_Fin:
  assumes "elems a s ! i = Fin q" and "0 \<le> m" and "i2f m = Fin (of_int m)" and "q < 2147483648"
  shows "\<exists>zs. scan_step a i (m, s) = Inr (if of_int m \<le> q then \<lfloor>q\<rfloor> else m, ext s [] zs)"
proof (cases "of_int m \<le> q")
  case True
  with assms(2) have "0 \<le> q" by (meson of_int_0_le_iff order_trans)
  then have "0 \<le> \<lfloor>q\<rfloor>" by simp
  moreover have "\<lfloor>q\<rfloor> \<le> 2147483647" using assms(4) by (simp add: floor_le_iff)
  ultimately have "f2i (Fin q) = Some \<lfloor>q\<rfloor>"
    using \<open>0 \<le> q\<close> by (simp add: INT_MIN_def INT_MAX_def)
  with True assms(1) have "scan_step a i (m, s) = Inr (\<lfloor>q\<rfloor>, ext s [] [(a, i), (a, i)])"
    by (simp add: scan_step_def rd_ext assms(3))
  with True show ?thesis by auto
next
  case False
  with assms(1) have "scan_step a i (m, s) = Inr (m, ext s [] [(a, i)])"
    by (simp add: scan_step_def rd_ext assms(3))
  with False show ?thesis by auto
qed

lemma plot_step_defined:
  assumes "f2i (scaled_y y h (elems a s ! gx) U) = Some v"
  shows "\<exists>cs zs. plot_step mr x y w h U a b c gx s = Inr (ext s cs zs)"
  using assms by (cases b) (auto simp: plot_step_def rd_ext emit_ext Let_def)

lemma fle_NaN [simp]: "fle x NaN = False" "fle NaN x = False"
  by (cases x; simp)+

lemma fle_PInf_NInf [simp]: "fle PInf NInf = False" "fle x NInf = (x = NInf)"
  by (cases x; simp)+

lemma scan_step_defined:
  assumes "scannable (elems a s ! i)" and "0 \<le> m" and "m < 2147483640"
  shows "\<exists>m' zs. scan_step a i (m, s) = Inr (m', ext s [] zs) \<and> 0 \<le> m' \<and> m' < 2147483640"
proof (cases "fle (i2f m) (elems a s ! i)")
  case True
  from rnd_nonneg [of "of_int m"] assms(2)
  have i: "i2f m = PInf \<or> (\<exists>r. i2f m = Fin r \<and> 0 \<le> r)" by (simp add: i2f_def)
  with True assms(1) obtain q where q: "elems a s ! i = Fin q" "q < 2147483640"
    by (cases "elems a s ! i") auto
  with True i have "0 \<le> q" by auto
  then have "0 \<le> \<lfloor>q\<rfloor>" by simp
  moreover have "\<lfloor>q\<rfloor> < 2147483640" using q(2) by (simp add: floor_less_iff)
  ultimately have "f2i (Fin q) = Some \<lfloor>q\<rfloor>" "0 \<le> \<lfloor>q\<rfloor>" "\<lfloor>q\<rfloor> < 2147483640"
    using \<open>0 \<le> q\<close> by (simp_all add: INT_MIN_def INT_MAX_def)
  moreover from this(1) True q(1)
  have "scan_step a i (m, s) = Inr (\<lfloor>q\<rfloor>, ext s [] [(a, i), (a, i)])"
    by (simp add: scan_step_def rd_ext)
  ultimately show ?thesis by blast
next
  case False
  then have "scan_step a i (m, s) = Inr (m, ext s [] [(a, i)])"
    by (simp add: scan_step_def rd_ext)
  with assms(2,3) show ?thesis by blast
qed

lemma resolve_Y1Max_defined:
  assumes "\<forall>i\<in>{1..mr}. scannable (elems a s ! i)"
  shows "\<exists>U zs. resolve_Y1Max mr Y1Max a auto_scale s = Inr (U, ext s [] zs)"
proof (cases auto_scale)
  case False
  then show ?thesis
    by (intro exI [of _ Y1Max] exI [of _ "[]"]) (simp add: resolve_Y1Max_def)
next
  case True
  let ?I = "\<lambda>p :: int \<times> state. 0 \<le> fst p \<and> fst p < 2147483640 \<and> (\<exists>zs. snd p = ext s [] zs)"
  have "\<exists>x'. for_each [1..<Suc mr] (scan_step a) (0, s) = Inr x' \<and> ?I x'"
  proof (rule for_each_defined [where I = ?I])
    show "?I (0::int, s)" by (auto intro: exI [of _ "[]"])
  next
    fix i p assume i: "i \<in> set [1..<Suc mr]" and p: "?I p"
    obtain m s0 where pm: "p = (m, s0)" by (cases p)
    from p pm obtain zs where zs: "s0 = ext s [] zs" and m: "0 \<le> m" "m < 2147483640" by auto
    from i have "i \<in> {1..mr}" by auto
    with assms have "scannable (elems a s ! i)" by blast
    then have "scannable (elems a s0 ! i)" by (simp add: zs)
    from scan_step_defined [OF this m] obtain m' zs' where
      st: "scan_step a i (m, s0) = Inr (m', ext s0 [] zs')" and m': "0 \<le> m'" "m' < 2147483640"
      by blast
    have "?I (m', ext s0 [] zs')"
      using m' by (auto simp: zs)
    with st show "\<exists>y'. scan_step a i p = Inr y' \<and> ?I y'"
      unfolding pm by blast
  qed
  then obtain m zs where "for_each [1..<Suc mr] (scan_step a) (0, s) = Inr (m, ext s [] zs)"
    and "m < 2147483640"
    by auto
  with True show ?thesis
    by (auto simp: resolve_Y1Max_def Let_def INT_MAX_def auto_scale_major_tick_def simp del: upt_Suc)
qed

lemma DrawGraph_defined_plot:
  assumes scan: "\<forall>i\<in>{1..mr}. scannable (elems a s ! i)"
    and plot: "\<And>U s1. resolve_Y1Max mr Y1Max a auto_scale s = Inr (U, s1)
                 \<Longrightarrow> \<forall>i\<in>{1..mr}. \<exists>v. f2i (scaled_y y h (elems a s ! i) U) = Some v"
  shows "\<exists>s'. DrawGraph mr x y w h Y1Max title a auto_scale b c s = Inr s'"
proof -
  from resolve_Y1Max_defined [OF scan] obtain U zs where
    r: "resolve_Y1Max mr Y1Max a auto_scale s = Inr (U, ext s [] zs)" by blast
  note conv = plot [OF r]
  let ?s2 = "emit [DrawRect x y (w + 2) (h + 3) WHITE, SetTextSize 2, SetTextColor c,
                 SetCursor (title_x x w title) (y - 20), PrintText title, SetTextSize 1] (ext s [] zs)"
  let ?I = "\<lambda>t. elems a t = elems a s"
  have "\<exists>s3. for_each [1..<Suc mr] (plot_step mr x y w h U a b c) ?s2 = Inr s3 \<and> ?I s3"
  proof (rule for_each_defined [where I = ?I])
    show "?I ?s2" by simp
  next
    fix i t assume i: "i \<in> set [1..<Suc mr]" and t: "?I t"
    from i have "i \<in> {1..mr}" by auto
    with conv obtain v where "f2i (scaled_y y h (elems a s ! i) U) = Some v" by blast
    with t have "f2i (scaled_y y h (elems a t ! i) U) = Some v" by simp
    from plot_step_defined [OF this, of mr x w b c]
    show "\<exists>y'. plot_step mr x y w h U a b c i t = Inr y' \<and> ?I y'"
      using t by auto
  qed
  then show ?thesis
    by (auto simp: DrawGraph_def r Let_def simp del: upt_Suc)
qed

lemma DrawGraph_defined:
  assumes slots: "\<forall>i\<in>{1..mr}. small (elems a s ! i)"
    and Y: "0 < Y1Max" "Y1Max \<le> 16777216" and h: "0 \<le> h"
    and Yh: "Y1Max * h \<le> 16777216" and y: "\<bar>y\<bar> + h < 16777216"
  shows "\<exists>s'. DrawGraph mr x y w h Y1Max title a auto_scale b c s = Inr s'"
proof (rule DrawGraph_defined_plot)
  show "\<forall>i\<in>{1..mr}. scannable (elems a s ! i)"
  proof
    fix i assume "i \<in> {1..mr}"
    with slots have "small (elems a s ! i)" ..
    then show "scannable (elems a s ! i)"
      by (cases "elems a s ! i") auto
  qed
next
  fix U s1 assume r: "resolve_Y1Max mr Y1Max a auto_scale s = Inr (U, s1)"
  have U: "0 < U" "U \<le> Y1Max"
    using resolve_Y1Max_pos [OF Y(1) r] resolve_Y1Max_le [OF r] by simp_all
  then have "U * h \<le> Y1Max * h" using h by (intro mult_right_mono) simp_all
  with Yh have Uh: "U * h \<le> 16777216" by simp
  show "\<forall>i\<in>{1..mr}. \<exists>v. f2i (scaled_y y h (elems a s ! i) U) = Some v"
  proof
    fix i assume "i \<in> {1..mr}"
    with slots have "small (elems a s ! i)" ..
    then have "elems a s ! i \<noteq> NaN" by auto
    from scaled_y_defined [OF this U(1) _ h Uh y] U(2) Y(2)
    show "\<exists>v. f2i (scaled_y y h (elems a s ! i) U) = Some v" by auto
  qed
qed

lemma DrawGraph_undefined_at_first_slot:
  assumes "1 \<le> mr" and "resolve_Y1Max mr Y1Max a auto_scale s = Inr (U, s1)"
    and "f2i (scaled_y y h (elems a s ! 1) U) = None"
  shows "DrawGraph mr x y w h Y1Max title a auto_scale b c s = Inl Undefined_conversion"
proof -
  have e: "elems a s1 = elems a s"
    using resolve_Y1Max_grows [OF assms(2)] by (auto simp: grows_def)
  have u: "[1..<Suc mr] = 1 # [Suc 1..<Suc mr]"
    using assms(1) by (simp add: upt_conv_Cons del: upt_Suc)
  have "plot_step mr x y w h U a b c 1
          (emit [DrawRect x y (w + 2) (h + 3) WHITE, SetTextSize 2, SetTextColor c,
                 SetCursor (title_x x w title) (y - 20), PrintText title, SetTextSize 1] s1)
        = Inl Undefined_conversion"
    using assms(3) by (simp add: plot_step_def rd_ext e)
  then show ?thesis
    unfolding DrawGraph_def assms(2) u by (simp add: Let_def)
qed

lemma fless_NaN [simp]: "fless x NaN = False" "fless NaN x = False"
  by (cases x; simp)+

lemma fadd_NaN [simp]: "fadd x NaN = NaN" "fadd NaN x = NaN"
  by (cases x; simp)+

lemma fmul_NaN [simp]: "fmul x NaN = NaN" "fmul NaN x = NaN"
  by (cases x; simp)+

lemma fdiv_NaN [simp]: "fdiv x NaN = NaN" "fdiv NaN x = NaN"
  by (cases x; simp)+

lemma scaled_y_NaN: "scaled_y y h NaN U = NaN"
  by (simp add: scaled_y_def constrain_def fgt_def fsub_def)

lemma boot_slots: "\<forall>i\<in>{1..mr}. elems a (boot mr) ! i = Fin 0"
  by (simp add: boot_fields nth_replicate del: replicate_Suc replicate.simps)

subsection \<open>The value of the scan\<close>

lemma binary32_floor_bound:
  assumes "binary32 q" and "q < 2147483648"
  shows "\<lfloor>q\<rfloor> \<le> 2147483520"
proof (cases "q < 1073741824")
  case True
  then have "\<lfloor>q\<rfloor> < 1073741824" by (simp add: floor_less_iff)
  then show ?thesis by simp
next
  case False
  then have "pow2 30 \<le> \<bar>q\<bar>" by (simp add: pow2_nat)
  from binary32_multiple [OF assms(1) this] obtain k where "q = of_int k * 2 ^ nat (30 - 23)"
    by auto
  then have q: "q = of_int (k * 128)" by simp
  with assms(2) have "k * 128 < 2147483648" by (simp only: of_int_less_numeral_iff)
  then have "k * 128 \<le> 2147483520" by simp
  then show ?thesis unfolding q by (simp only: floor_of_int)
qed

lemma scan_value:
  assumes bound: "\<forall>i\<in>{1..mr}. \<exists>q. elems a s ! i = Fin q \<and> binary32 q \<and> q \<le> M"
    and attained: "\<exists>i\<in>{1..mr}. elems a s ! i = Fin M"
    and range: "M < 2147483648"
  shows "\<exists>s'. for_each [1..<Suc mr] (scan_step a) (0, s) = Inr (max 0 \<lfloor>M\<rfloor>, s')"
proof -
  from attained obtain k where k: "k \<in> {1..mr}" "elems a s ! k = Fin M" by blast
  let ?I = "\<lambda>p (x :: int \<times> state).
              (\<exists>zs. snd x = ext s [] zs) \<and> 0 \<le> fst x \<and> fst x \<le> max 0 \<lfloor>M\<rfloor>
              \<and> i2f (fst x) = Fin (of_int (fst x))
              \<and> (k \<in> set p \<longrightarrow> \<lfloor>M\<rfloor> \<le> fst x)"
  have "\<exists>x'. for_each [1..<Suc mr] (scan_step a) (0, s) = Inr x' \<and> ?I ([] @ [1..<Suc mr]) x'"
  proof (rule for_each_prefix [where I = ?I])
    show "?I [] (0::int, s)" by (auto intro: exI [of _ "[]"])
  next
    fix p i x assume i: "i \<in> set [1..<Suc mr]" and x: "?I p x"
    obtain m s0 where xm: "x = (m, s0)" by (cases x)
    from x xm obtain zs where zs: "s0 = ext s [] zs" and m: "0 \<le> m" "m \<le> max 0 \<lfloor>M\<rfloor>"
      and exact: "i2f m = Fin (of_int m)"
      and seen: "k \<in> set p \<longrightarrow> \<lfloor>M\<rfloor> \<le> m" by auto
    from i have "i \<in> {1..mr}" by auto
    with bound obtain q where q: "elems a s ! i = Fin q" "q \<le> M" and b: "binary32 q" by blast
    then have "elems a s0 ! i = Fin q" by (simp add: zs)
    moreover have "q < 2147483648" using q(2) range by simp
    ultimately obtain zs' where
      st: "scan_step a i (m, s0) = Inr (if of_int m \<le> q then \<lfloor>q\<rfloor> else m, ext s0 [] zs')"
      using scan_step_Fin [OF _ m(1) exact] by blast
    let ?m' = "if of_int m \<le> q then \<lfloor>q\<rfloor> else m"
    have ex': "i2f ?m' = Fin (of_int ?m')"
      using exact binary32_floor [OF b] by (simp add: i2f_def)
    have up: "m \<le> ?m'" by (simp add: le_floor_iff)
    have "\<lfloor>q\<rfloor> \<le> \<lfloor>M\<rfloor>" using q(2) by (rule floor_mono)
    then have hi: "?m' \<le> max 0 \<lfloor>M\<rfloor>" using m(2) by auto
    have at: "\<lfloor>M\<rfloor> \<le> ?m'" if "i = k"
    proof -
      from that q(1) k(2) have qM: "q = M" by simp
      show ?thesis
      proof (cases "of_int m \<le> q")
        case True
        then show ?thesis by (simp add: qM)
      next
        case False
        then have "\<lfloor>M\<rfloor> < m" by (simp add: qM floor_less_iff)
        with False show ?thesis by simp
      qed
    qed
    have "?I (p @ [i]) (?m', ext s0 [] zs')"
      using up hi at seen m(1) ex' by (auto simp: zs)
    with st show "\<exists>y'. scan_step a i x = Inr y' \<and> ?I (p @ [i]) y'"
      unfolding xm by blast
  qed
  then obtain m' s' where
    fe: "for_each [1..<Suc mr] (scan_step a) (0, s) = Inr (m', s')" and
    m': "0 \<le> m'" "m' \<le> max 0 \<lfloor>M\<rfloor>" "k \<in> set [1..<Suc mr] \<longrightarrow> \<lfloor>M\<rfloor> \<le> m'"
    by auto
  from k(1) have "k \<in> set [1..<Suc mr]" by auto
  with m' have "m' = max 0 \<lfloor>M\<rfloor>" by auto
  with fe show ?thesis by blast
qed

lemma resolve_Y1Max_value:
  assumes "\<forall>i\<in>{1..mr}. \<exists>q. elems a s ! i = Fin q \<and> binary32 q \<and> q \<le> M"
    and "\<exists>i\<in>{1..mr}. elems a s ! i = Fin M"
    and "M < 2147483648"
  shows "\<exists>s'. resolve_Y1Max mr Y1Max a True s =
           Inr (let candidate = ((max 0 \<lfloor>M\<rfloor> + 5 + 2) div 5) * 5
                in if candidate < Y1Max then candidate else Y1Max, s')"
proof -
  from scan_value [OF assms] obtain s' where
    fe: "for_each [1..<Suc mr] (scan_step a) (0, s) = Inr (max 0 \<lfloor>M\<rfloor>, s')" ..
  from assms(1,2) have "binary32 M" by auto
  from binary32_floor_bound [OF this assms(3)]
  have nov: "\<not> 2147483640 < max 0 \<lfloor>M\<rfloor>"
    by linarith
  have "(max 0 \<lfloor>M\<rfloor> + 5 + 2) sdiv 5 = (max 0 \<lfloor>M\<rfloor> + 5 + 2) div 5"
    by (rule sdiv_nonneg) simp_all
  then show ?thesis
    unfolding resolve_Y1Max_def fe by (simp add: auto_scale_major_tick_def INT_MAX_def Let_def nov)
qed

subsection \<open>Two calls of DrawGraph side by side\<close>

lemma sim_refl [simp]: "sim s t s t"
  unfolding sim_def by (intro exI [of _ "[]"]) simp

lemma sim_ext: "sim s t s' t' \<Longrightarrow> sim s t (ext s' cs zs) (ext t' cs zs)"
  unfolding sim_def by (metis ext_ext)

lemma sim_elems: "sim s t s' t' \<Longrightarrow> elems a s = elems a t \<Longrightarrow> elems a s' = elems a t'"
  unfolding sim_def by auto

lemma rel_sumE [consumes 1, case_names fault ok]:
  assumes "rel_sum (=) R u v"
  obtains e where "u = Inl e" "v = Inl e" | x y where "u = Inr x" "v = Inr y" "R x y"
  using assms by (cases u; cases v) simp_all

lemma for_each_rel:
  assumes "R x y"
    and "\<And>i x y. i \<in> set ixs \<Longrightarrow> R x y \<Longrightarrow> rel_sum (=) R (body i x) (body i y)"
  shows "rel_sum (=) R (for_each ixs body x) (for_each ixs body y)"
  using assms
proof (induction ixs arbitrary: x y)
  case Nil
  then show ?case by simp
next
  case (Cons i ixs)
  have "rel_sum (=) R (body i x) (body i y)"
    using Cons.prems by simp
  then show ?case
  proof (cases rule: rel_sumE)
    case (fault e)
    then show ?thesis by simp
  next
    case (ok x' y')
    have "rel_sum (=) R (for_each ixs body x') (for_each ixs body y')"
      by (rule Cons.IH [OF ok(3)]) (use Cons.prems(2) in auto)
    with ok show ?thesis by simp
  qed
qed

lemma fold_rel:
  assumes "R x y" and "\<And>i x y. R x y \<Longrightarrow> R (f i x) (f i y)"
  shows "R (fold f ixs x) (fold f ixs y)"
  using assms by (induction ixs arbitrary: x y) auto

lemma scan_step_rel:
  assumes e: "elems a s = elems a t" and sm: "sim s t s' t'"
  shows "rel_sum (=) (\<lambda>p p'. fst p = fst p' \<and> sim s t (snd p) (snd p'))
           (scan_step a i (m, s')) (scan_step a i (m, t'))"
proof -
  have e': "elems a s' = elems a t'" using sm e by (rule sim_elems)
  show ?thesis
    using sm
    by (auto simp: scan_step_def rd_ext e' Let_def sim_ext split: option.splits)
qed

lemma resolve_Y1Max_rel:
  assumes e: "elems a s = elems a t"
  shows "rel_sum (=) (\<lambda>p p'. fst p = fst p' \<and> sim s t (snd p) (snd p'))
           (resolve_Y1Max mr Y1Max a auto_scale s) (resolve_Y1Max mr Y1Max a auto_scale t)"
proof (cases auto_scale)
  case False
  then show ?thesis by (simp add: resolve_Y1Max_def)
next
  case True
  let ?R = "\<lambda>(p :: int \<times> state) p'. fst p = fst p' \<and> sim s t (snd p) (snd p')"
  have "rel_sum (=) ?R (for_each [1..<Suc mr] (scan_step a) (0, s))
                       (for_each [1..<Suc mr] (scan_step a) (0, t))"
  proof (rule for_each_rel [where R = ?R])
    show "?R (0, s) (0, t)" by simp
  next
    fix i x y assume "?R x y"
    then show "rel_sum (=) ?R (scan_step a i x) (scan_step a i y)"
      using scan_step_rel [OF e, of "snd x" "snd y" i "fst x"] by (cases x; cases y) simp
  qed
  then show ?thesis
    unfolding resolve_Y1Max_def using True
    by (cases rule: rel_sumE) (auto simp: Let_def simp del: upt_Suc)
qed

lemma plot_step_rel:
  assumes e: "elems a s = elems a t" and sm: "sim s t s' t'"
  shows "rel_sum (=) (sim s t) (plot_step mr x y w h U a b c gx s') (plot_step mr x y w h U a b c gx t')"
proof -
  have e': "elems a s' = elems a t'" using sm e by (rule sim_elems)
  show ?thesis
    using sm
    by (auto simp: plot_step_def rd_ext emit_ext e' Let_def split: option.splits intro!: sim_ext)
qed

lemma grid_step_rel:
  assumes "sim s t s' t'"
  shows "sim s t (grid_step x y w h U spacing s') (grid_step x y w h U spacing t')"
proof -
  let ?f = "\<lambda>j u. if spacing < yticks
                 then emit [DrawFastHLine (x + 1 + (j * w) sdiv number_of_dashes)
                                          (y + (h * spacing) sdiv yticks)
                                          (w sdiv (2 * number_of_dashes)) WHITE] u
                 else u"
  have "sim s t (fold ?f [0..number_of_dashes - 1] s') (fold ?f [0..number_of_dashes - 1] t')"
    by (rule fold_rel [where R = "sim s t", OF assms]) (simp add: emit_ext sim_ext)
  then show ?thesis
    by (simp add: grid_step_def Let_def emit_ext sim_ext)
qed

lemma DrawGraph_rel:
  assumes e: "elems a s = elems a t"
  shows "rel_sum (=) (sim s t)
           (DrawGraph mr x y w h Y1Max title a auto_scale b c s)
           (DrawGraph mr x y w h Y1Max title a auto_scale b c t)"
proof -
  let ?frame = "\<lambda>U. [DrawRect x y (w + 2) (h + 3) WHITE, SetTextSize 2, SetTextColor c,
                 SetCursor (title_x x w title) (y - 20), PrintText title, SetTextSize 1]"
  from resolve_Y1Max_rel [OF e, of mr Y1Max auto_scale] show ?thesis
  proof (cases rule: rel_sumE)
    case (fault e1)
    then show ?thesis by (simp add: DrawGraph_def)
  next
    case (ok p p')
    obtain U s1 where p: "p = (U, s1)" by (cases p)
    obtain U' t1 where p': "p' = (U', t1)" by (cases p')
    from ok(3) p p' have U: "U' = U" and sm: "sim s t s1 t1" by simp_all
    have "rel_sum (=) (sim s t)
            (for_each [1..<Suc mr] (plot_step mr x y w h U a b c) (emit (?frame U) s1))
            (for_each [1..<Suc mr] (plot_step mr x y w h U a b c) (emit (?frame U) t1))"
    proof (rule for_each_rel [where R = "sim s t"])
      show "sim s t (emit (?frame U) s1) (emit (?frame U) t1)"
        using sm by (simp add: emit_ext sim_ext)
    next
      fix i s' t' assume "sim s t s' t'"
      then show "rel_sum (=) (sim s t) (plot_step mr x y w h U a b c i s') (plot_step mr x y w h U a b c i t')"
        by (rule plot_step_rel [OF e])
    qed
    then show ?thesis
    proof (cases rule: rel_sumE)
      case (fault e1)
      then show ?thesis
        using ok(1,2) by (simp add: DrawGraph_def p p' U Let_def del: upt_Suc)
    next
      case inner: (ok s3 t3)
      have "sim s t (fold (grid_step x y w h U) [0..yticks] s3) (fold (grid_step x y w h U) [0..yticks] t3)"
        by (rule fold_rel [where R = "sim s t", OF inner(3)]) (rule grid_step_rel)
      then show ?thesis
        using ok(1,2) inner(1,2) by (simp add: DrawGraph_def p p' U Let_def del: upt_Suc)
    qed
  qed
qed

subsection \<open>What loop() does before the graphs\<close>

lemma say_fields [simp]:
  "temperature (say cs s) = temperature s"
  "humidity (say cs s) = humidity s"
  "min_temp (say cs s) = min_temp s"
  "max_temp (say cs s) = max_temp s"
  "min_humi (say cs s) = min_humi s"
  "max_humi (say cs s) = max_humi s"
  "reading (say cs s) = reading s"
  "serial (say cs s) = serial s @ cs"
  "tft (say cs s) = tft s"
  "subscripts (say cs s) = subscripts s"
  "temp_readings (say cs s) = temp_readings s"
  "humi_readings (say cs s) = humi_readings s"
  "elems a (say cs s) = elems a s"
  by (simp_all add: say_def elems_def split: series.split)

lemma current_simps [simp]:
  "current Temp s = temperature s"
  "current Humi s = humidity s"
  by (simp_all add: current_def)

lemma get_fields:
  "temperature (get_temperature_and_humidity t h s) = appended Temp (t, h)"
  "humidity (get_temperature_and_humidity t h s) = appended Humi (t, h)"
  "min_temp (get_temperature_and_humidity t h s) = min_temp s"
  "max_temp (get_temperature_and_humidity t h s) = max_temp s"
  "min_humi (get_temperature_and_humidity t h s) = min_humi s"
  "max_humi (get_temperature_and_humidity t h s) = max_humi s"
  "reading (get_temperature_and_humidity t h s) = reading s"
  "tft (get_temperature_and_humidity t h s) = tft s"
  "subscripts (get_temperature_and_humidity t h s) = subscripts s"
  "elems a (get_temperature_and_humidity t h s) = elems a s"
  by (simp_all add: get_temperature_and_humidity_def appended_def Let_def elems_def split: series.split)

lemma store_reading_fields:
  "temperature (store_reading s) = temperature s"
  "humidity (store_reading s) = humidity s"
  "reading (store_reading s) = reading s"
  "tft (store_reading s) = tft s"
  "serial (store_reading s) = serial s"
  "subscripts (store_reading s) = subscripts s @ [(Temp, reading s), (Humi, reading s)]"
  "elems a (store_reading s) = (elems a s)[reading s := current a s]"
  "max_temp (store_reading s) = (if fgt (temperature s) (max_temp s) then temperature s else max_temp s)"
  "min_temp (store_reading s) = (if fless (temperature s) (min_temp s) then temperature s else min_temp s)"
  "max_humi (store_reading s) = (if fgt (humidity s) (max_humi s) then humidity s else max_humi s)"
  "min_humi (store_reading s) = (if fless (humidity s) (min_humi s) then humidity s else min_humi s)"
  by (cases a; simp add: store_reading_def Let_def elems_wr wr_def subscripted_def elems_def)+

lemma loop_before_graphs_fields:
  "temperature (loop_before_graphs t h s) = appended Temp (t, h)"
  "humidity (loop_before_graphs t h s) = appended Humi (t, h)"
  "reading (loop_before_graphs t h s) = reading s"
  "subscripts (loop_before_graphs t h s) = subscripts s @ [(Temp, reading s), (Humi, reading s)]"
  "elems a (loop_before_graphs t h s) = (elems a s)[reading s := appended a (t, h)]"
  "max_temp (loop_before_graphs t h s)
     = (if fgt (appended Temp (t, h)) (max_temp s) then appended Temp (t, h) else max_temp s)"
  "min_temp (loop_before_graphs t h s)
     = (if fless (appended Temp (t, h)) (min_temp s) then appended Temp (t, h) else min_temp s)"
  "max_humi (loop_before_graphs t h s)
     = (if fgt (appended Humi (t, h)) (max_humi s) then appended Humi (t, h) else max_humi s)"
  "min_humi (loop_before_graphs t h s)
     = (if fless (appended Humi (t, h)) (min_humi s) then appended Humi (t, h) else min_humi s)"
  by (cases a; simp add: loop_before_graphs_def Let_def store_reading_fields get_fields)+

subsection \<open>The scrolling loop and what loop() does after the graphs\<close>

lemma wr_arrays [simp]:
  "temp_readings (wr a i v s) = (if a = Temp then (temp_readings s)[i := v] else temp_readings s)"
  "humi_readings (wr a i v s) = (if a = Humi then (humi_readings s)[i := v] else humi_readings s)"
  by (cases a; simp add: wr_def subscripted_def)+

lemma length_shifted [simp]: "length (shifted k xs) = length xs"
  by (simp add: shifted_def)

lemma nth_shifted:
  "j < length xs \<Longrightarrow> shifted k xs ! j = (if 1 \<le> j \<and> j < k then xs ! (j + 1) else xs ! j)"
  by (simp add: shifted_def)

lemma shifted_0 [simp]: "shifted 0 xs = xs" and shifted_1 [simp]: "shifted (Suc 0) xs = xs"
  by (rule nth_equalityI; auto simp: nth_shifted)+

lemma shifted_Suc:
  assumes "1 \<le> k" and "Suc k < length xs"
  shows "(shifted k xs)[k := shifted k xs ! Suc k] = shifted (Suc k) xs"
  using assms by (intro nth_equalityI) (auto simp: nth_shifted nth_list_update)

lemma shift_step_eq:
  "shift_step i s =
     s\<lparr>temp_readings := (temp_readings s)[i := temp_readings s ! (i + 1)],
       humi_readings := (humi_readings s)[i := humi_readings s ! (i + 1)],
       subscripts := subscripts s @ [(Temp, i + 1), (Temp, i), (Humi, i + 1), (Humi, i)]\<rparr>"
  by (simp add: shift_step_def rd_def wr_def subscripted_def elems_def)

lemma fold_shift_step:
  assumes "k \<le> mr" and "length (temp_readings s) = mr + 1" and "length (humi_readings s) = mr + 1"
  shows "\<exists>zs. in_slots mr zs \<and>
           fold shift_step [1..<k] s =
             s\<lparr>temp_readings := shifted k (temp_readings s),
               humi_readings := shifted k (humi_readings s),
               subscripts := subscripts s @ zs\<rparr>"
  using assms(1)
proof (induction k)
  case 0
  show ?case by (rule exI [of _ "[]"]) simp
next
  case (Suc k)
  show ?case
  proof (cases "k = 0")
    case True
    then show ?thesis by (intro exI [of _ "[]"]) simp
  next
    case False
    with Suc.prems have k: "1 \<le> k" "k \<le> mr" "k + 1 \<le> mr" by simp_all
    from Suc.IH [OF k(2)] obtain zs where zs: "in_slots mr zs" and
      f: "fold shift_step [1..<k] s =
             s\<lparr>temp_readings := shifted k (temp_readings s),
               humi_readings := shifted k (humi_readings s),
               subscripts := subscripts s @ zs\<rparr>" by blast
    have u: "[1..<Suc k] = [1..<k] @ [k]" using k(1) by simp
    have "fold shift_step [1..<Suc k] s = shift_step k (fold shift_step [1..<k] s)"
      unfolding u by simp
    also have "\<dots> = shift_step k (s\<lparr>temp_readings := shifted k (temp_readings s),
               humi_readings := shifted k (humi_readings s),
               subscripts := subscripts s @ zs\<rparr>)"
      unfolding f ..
    also have "\<dots> = s\<lparr>temp_readings := shifted (Suc k) (temp_readings s),
               humi_readings := shifted (Suc k) (humi_readings s),
               subscripts := subscripts s @ (zs @ [(Temp, k + 1), (Temp, k), (Humi, k + 1), (Humi, k)])\<rparr>"
      using k assms(2,3) by (simp add: shift_step_eq shifted_Suc)
    finally have "fold shift_step [1..<Suc k] s =
             s\<lparr>temp_readings := shifted (Suc k) (temp_readings s),
               humi_readings := shifted (Suc k) (humi_readings s),
               subscripts := subscripts s @ (zs @ [(Temp, k + 1), (Temp, k), (Humi, k + 1), (Humi, k)])\<rparr>" .
    moreover have "in_slots mr (zs @ [(Temp, k + 1), (Temp, k), (Humi, k + 1), (Humi, k)])"
      using zs k by simp
    ultimately show ?thesis by blast
  qed
qed

lemma snapshot_shifted:
  assumes "length xs = mr + 1" and "1 \<le> mr"
  shows "snapshot mr ((shifted mr xs)[mr := v]) = drop 1 (snapshot mr xs) @ [v]"
  using assms
  by (intro nth_equalityI) (auto simp: snapshot_def nth_shifted nth_list_update nth_append)

lemma snapshot_update:
  assumes "1 \<le> r"
  shows "snapshot mr (xs[r := v]) = (snapshot mr xs)[r - 1 := v]"
  using assms by (simp add: snapshot_def drop_update_swap take_update_swap)

lemma length_snapshot: "length xs = mr + 1 \<Longrightarrow> length (snapshot mr xs) = mr"
  by (simp add: snapshot_def)

lemma nth_snapshot: "length xs = mr + 1 \<Longrightarrow> i < mr \<Longrightarrow> snapshot mr xs ! i = xs ! (i + 1)"
  by (simp add: snapshot_def)

lemma loop_after_graphs_plain:
  "temperature (loop_after_graphs mr s) = temperature s"
  "humidity (loop_after_graphs mr s) = humidity s"
  "min_temp (loop_after_graphs mr s) = min_temp s"
  "max_temp (loop_after_graphs mr s) = max_temp s"
  "min_humi (loop_after_graphs mr s) = min_humi s"
  "max_humi (loop_after_graphs mr s) = max_humi s"
proof -
  let ?I = "\<lambda>t. temperature t = temperature s \<and> humidity t = humidity s
             \<and> min_temp t = min_temp s \<and> max_temp t = max_temp s
             \<and> min_humi t = min_humi s \<and> max_humi t = max_humi s"
  have "?I (fold shift_step [1..<mr] (s\<lparr>reading := reading s + 1, reading := mr\<rparr>))"
    by (rule fold_inv [where I = ?I]) (simp_all add: shift_step_eq)
  then have "?I (loop_after_graphs mr s)"
    by (simp add: loop_after_graphs_def Let_def)
  then show
    "temperature (loop_after_graphs mr s) = temperature s"
    "humidity (loop_after_graphs mr s) = humidity s"
    "min_temp (loop_after_graphs mr s) = min_temp s"
    "max_temp (loop_after_graphs mr s) = max_temp s"
    "min_humi (loop_after_graphs mr s) = min_humi s"
    "max_humi (loop_after_graphs mr s) = max_humi s"
    by simp_all
qed

lemma loop_after_graphs_arrays:
  assumes "reading s \<le> mr" and "length (temp_readings s) = mr + 1" and "length (humi_readings s) = mr + 1"
    and "1 \<le> reading s"
  shows "reading (loop_after_graphs mr s) = (if reading s = mr then mr else reading s + 1)"
    and "elems a (loop_after_graphs mr s)
           = (if reading s = mr then (shifted mr (elems a s))[mr := current a s] else elems a s)"
    and "\<exists>zs. in_slots mr zs \<and> subscripts (loop_after_graphs mr s) = subscripts s @ zs"
proof -
  let ?s3 = "s\<lparr>reading := reading s + 1, reading := mr\<rparr>"
  from fold_shift_step [of mr mr ?s3] assms obtain zs where zs: "in_slots mr zs" and
    f: "fold shift_step [1..<mr] ?s3 =
          ?s3\<lparr>temp_readings := shifted mr (temp_readings s),
               humi_readings := shifted mr (humi_readings s),
               subscripts := subscripts s @ zs\<rparr>"
    by auto
  note f = f [simplified]
  show "reading (loop_after_graphs mr s) = (if reading s = mr then mr else reading s + 1)"
    using assms(1) by (simp add: loop_after_graphs_def Let_def f)
  show "elems a (loop_after_graphs mr s)
           = (if reading s = mr then (shifted mr (elems a s))[mr := current a s] else elems a s)"
    using assms(1) by (cases a) (simp_all add: loop_after_graphs_def Let_def f elems_wr elems_def)
  show "\<exists>zs. in_slots mr zs \<and> subscripts (loop_after_graphs mr s) = subscripts s @ zs"
  proof (cases "reading s = mr")
    case True
    then have "subscripts (loop_after_graphs mr s) = subscripts s @ (zs @ [(Temp, mr), (Humi, mr)])"
      by (simp add: loop_after_graphs_def Let_def f)
    moreover have "in_slots mr (zs @ [(Temp, mr), (Humi, mr)])"
      using zs assms(4) True by simp
    ultimately show ?thesis by blast
  next
    case False
    with assms(1) have "subscripts (loop_after_graphs mr s) = subscripts s @ []"
      by (simp add: loop_after_graphs_def Let_def)
    then show ?thesis by (intro exI [of _ "[]"]) simp
  qed
qed

subsection \<open>One call of loop()\<close>

lemma elems_simps:
  "elems Temp s = temp_readings s"
  "elems Humi s = humi_readings s"
  by (simp_all add: elems_def)

lemma sound_elems:
  "sound mr s \<Longrightarrow> length (elems a s) = mr + 1"
  "sound mr s \<Longrightarrow> elems a s ! 0 = Fin 0"
  by (cases a; simp add: sound_def elems_simps)+

lemma current_ext [simp]: "current a (ext s cs zs) = current a s"
  by (cases a) simp_all

lemma current_loop_before_graphs [simp]: "current a (loop_before_graphs t h s) = appended a (t, h)"
  by (cases a) (simp_all add: loop_before_graphs_fields)

lemma loop_Inr:
  assumes "loop mr t h s = Inr s'"
  shows "\<exists>cs zs. in_slots mr zs \<and> s' = loop_after_graphs mr (ext (loop_before_graphs t h s) cs zs)"
proof -
  from assms obtain s1 s2 where
    d1: "DrawGraph mr 105 20 200 80 50 ''Temperature'' Temp True False RED (loop_before_graphs t h s) = Inr s1" and
    d2: "DrawGraph mr 105 150 200 80 100 ''Humidity'' Humi False True BLUE s1 = Inr s2" and
    s': "s' = loop_after_graphs mr s2"
    by (auto simp: loop_def split: sum.splits)
  have "grows mr (loop_before_graphs t h s) s2"
    using DrawGraph_grows [OF d1] DrawGraph_grows [OF d2] by (rule grows_trans)
  with s' show ?thesis by (auto simp: grows_def)
qed

lemma loop_extrema:
  assumes "loop mr t h s = Inr s'"
  shows "max_temp s' = (if fgt (appended Temp (t, h)) (max_temp s) then appended Temp (t, h) else max_temp s)"
    and "min_temp s' = (if fless (appended Temp (t, h)) (min_temp s) then appended Temp (t, h) else min_temp s)"
    and "max_humi s' = (if fgt (appended Humi (t, h)) (max_humi s) then appended Humi (t, h) else max_humi s)"
    and "min_humi s' = (if fless (appended Humi (t, h)) (min_humi s) then appended Humi (t, h) else min_humi s)"
proof -
  from loop_Inr [OF assms] obtain cs zs where
    s': "s' = loop_after_graphs mr (ext (loop_before_graphs t h s) cs zs)" by blast
  show "max_temp s' = (if fgt (appended Temp (t, h)) (max_temp s) then appended Temp (t, h) else max_temp s)"
    unfolding s' by (simp add: loop_after_graphs_plain loop_before_graphs_fields)
  show "min_temp s' = (if fless (appended Temp (t, h)) (min_temp s) then appended Temp (t, h) else min_temp s)"
    unfolding s' by (simp add: loop_after_graphs_plain loop_before_graphs_fields)
  show "max_humi s' = (if fgt (appended Humi (t, h)) (max_humi s) then appended Humi (t, h) else max_humi s)"
    unfolding s' by (simp add: loop_after_graphs_plain loop_before_graphs_fields)
  show "min_humi s' = (if fless (appended Humi (t, h)) (min_humi s) then appended Humi (t, h) else min_humi s)"
    unfolding s' by (simp add: loop_after_graphs_plain loop_before_graphs_fields)
qed

lemma loop_arrays:
  assumes l: "loop mr t h s = Inr s'" and snd: "sound mr s"
  shows "reading s' = (if reading s = mr then mr else reading s + 1)"
    and "elems a s' =
           (if reading s = mr
            then (shifted mr ((elems a s)[mr := appended a (t, h)]))[mr := appended a (t, h)]
            else (elems a s)[reading s := appended a (t, h)])"
    and "\<exists>zs. in_slots mr zs \<and> subscripts s' = subscripts s @ zs"
proof -
  from loop_Inr [OF l] obtain cs zs where zs: "in_slots mr zs" and
    s': "s' = loop_after_graphs mr (ext (loop_before_graphs t h s) cs zs)" by blast
  let ?x = "ext (loop_before_graphs t h s) cs zs"
  have r: "reading ?x = reading s" by (simp add: loop_before_graphs_fields)
  have x: "reading ?x \<le> mr" "length (temp_readings ?x) = mr + 1" "length (humi_readings ?x) = mr + 1"
    "1 \<le> reading ?x"
    using snd loop_before_graphs_fields(5) [of Temp t h s] loop_before_graphs_fields(5) [of Humi t h s]
    by (simp_all add: sound_def loop_before_graphs_fields(3) elems_simps)
  show "reading s' = (if reading s = mr then mr else reading s + 1)"
    unfolding s' loop_after_graphs_arrays(1) [OF x] r ..
  show "elems a s' =
           (if reading s = mr
            then (shifted mr ((elems a s)[mr := appended a (t, h)]))[mr := appended a (t, h)]
            else (elems a s)[reading s := appended a (t, h)])"
    unfolding s' loop_after_graphs_arrays(2) [OF x] r
    by (simp add: loop_before_graphs_fields)
  from loop_after_graphs_arrays(3) [OF x] obtain zs' where zs': "in_slots mr zs'" and
    "subscripts (loop_after_graphs mr ?x) = subscripts ?x @ zs'" by blast
  then have "subscripts s' = subscripts s @ ([(Temp, reading s), (Humi, reading s)] @ zs @ zs')"
    unfolding s' by (simp add: loop_before_graphs_fields)
  moreover have "in_slots mr ([(Temp, reading s), (Humi, reading s)] @ zs @ zs')"
    using zs zs' snd by (simp add: sound_def)
  ultimately show "\<exists>zs. in_slots mr zs \<and> subscripts s' = subscripts s @ zs" by blast
qed

lemma loop_sound:
  assumes l: "loop mr t h s = Inr s'" and snd: "sound mr s"
  shows "sound mr s'"
proof -
  have len: "length (elems a s') = mr + 1" for a
    using sound_elems(1) [OF snd, of a] by (simp add: loop_arrays(2) [OF l snd])
  have zero: "elems a s' ! 0 = Fin 0" for a
    using sound_elems [OF snd, of a] snd
    by (auto simp: loop_arrays(2) [OF l snd] sound_def nth_shifted)
  show ?thesis
    using len [of Temp] len [of Humi] zero [of Temp] zero [of Humi] snd
    by (simp add: sound_def elems_simps loop_arrays(1) [OF l snd])
qed

lemma loop_snapshot:
  assumes l: "loop mr t h s = Inr s'" and snd: "sound mr s"
  shows "snapshot mr (elems a s') =
           (if reading s = mr
            then drop 1 ((snapshot mr (elems a s))[mr - 1 := appended a (t, h)]) @ [appended a (t, h)]
            else (snapshot mr (elems a s))[reading s - 1 := appended a (t, h)])"
proof -
  have r: "1 \<le> reading s" "reading s \<le> mr" using snd by (simp_all add: sound_def)
  have len: "length (elems a s) = mr + 1" using snd by (rule sound_elems)
  show ?thesis
  proof (cases "reading s = mr")
    case True
    with r have mr: "1 \<le> mr" by simp
    have "snapshot mr (elems a s') =
            drop 1 (snapshot mr ((elems a s)[mr := appended a (t, h)])) @ [appended a (t, h)]"
      using True len mr by (simp add: loop_arrays(2) [OF l snd] snapshot_shifted)
    then show ?thesis using True mr by (simp add: snapshot_update)
  next
    case False
    then show ?thesis using r by (simp add: loop_arrays(2) [OF l snd] snapshot_update)
  qed
qed

subsection \<open>Any number of calls of loop()\<close>

lemma run_snoc:
  "run mr (rs @ [r]) s = (case run mr rs s of Inl e \<Rightarrow> Inl e | Inr s' \<Rightarrow> loop mr (fst r) (snd r) s')"
  by (induction rs arbitrary: s) (auto split: sum.splits)

lemma run_snoc_Inr:
  assumes "run mr (rs @ [r]) s = Inr s''"
  obtains s' where "run mr rs s = Inr s'" and "loop mr (fst r) (snd r) s' = Inr s''"
  using assms by (auto simp: run_snoc split: sum.splits)

lemma sound_boot:
  assumes "1 \<le> mr"
  shows "sound mr (boot mr)"
proof -
  have "temp_readings (boot mr) = replicate (mr + 1) (Fin 0)"
    and "humi_readings (boot mr) = replicate (mr + 1) (Fin 0)"
    using boot_fields(1) [of Temp mr] boot_fields(1) [of Humi mr] by (simp_all add: elems_simps)
  then show ?thesis using assms by (simp add: sound_def boot_fields)
qed

text \<open>
  The slots of a series after \<open>n\<close> readings \<open>vs\<close>, oldest first: the readings and then
  zeros while the array is filling; afterwards the newest \<open>mr - 1\<close> readings and the
  newest once more, which the next call of \<^verbatim>\<open>loop()\<close> overwrites.
\<close>

lemma slots_step:
  fixes vs :: "float list"
  assumes "1 \<le> mr" and "length vs = n"
  shows "(if min (n + 1) mr = mr
          then drop 1 ((if n < mr then vs @ replicate (mr - n) (Fin 0)
                        else drop (n + 1 - mr) vs @ [last vs])[mr - 1 := v]) @ [v]
          else (if n < mr then vs @ replicate (mr - n) (Fin 0)
                else drop (n + 1 - mr) vs @ [last vs])[min (n + 1) mr - 1 := v])
         = (if n + 1 < mr then (vs @ [v]) @ replicate (mr - (n + 1)) (Fin 0)
            else drop (n + 2 - mr) (vs @ [v]) @ [v])"
proof -
  consider "n + 1 < mr" | "n + 1 = mr" | "mr \<le> n" by linarith
  then show ?thesis
  proof cases
    case 1
    then have "(vs @ replicate (mr - n) (Fin 0))[n := v] = (vs @ [v]) @ replicate (mr - (n + 1)) (Fin 0)"
      using assms(2)
      by (intro nth_equalityI) (auto simp: nth_append nth_list_update)
    with 1 show ?thesis by (simp add: min_def)
  next
    case 2
    then have "(vs @ replicate (mr - n) (Fin 0))[mr - 1 := v] = vs @ [v]"
      using assms(2)
      by (intro nth_equalityI) (auto simp: nth_append nth_list_update)
    with 2 show ?thesis using assms(2) by (simp add: min_def)
  next
    case 3
    then have l: "length (drop (n + 1 - mr) vs) = mr - 1" using assms(2) by simp
    have "(drop (n + 1 - mr) vs @ [last vs])[mr - 1 := v] = drop (n + 1 - mr) vs @ [v]"
      using l by (simp add: list_update_append)
    moreover have "drop (n + 1 - mr) vs @ [v] = drop (n + 1 - mr) (vs @ [v])"
      using 3 assms by simp
    moreover have "drop 1 (drop (n + 1 - mr) (vs @ [v])) = drop (1 + (n + 1 - mr)) (vs @ [v])"
      by (simp only: drop_drop)
    moreover have "1 + (n + 1 - mr) = n + 2 - mr"
      using 3 by simp
    ultimately show ?thesis using 3 assms(1) by (simp add: min_def)
  qed
qed

lemma run_invariant:
  assumes "1 \<le> mr" and "run mr rs (boot mr) = Inr s"
  shows "sound mr s \<and> reading s = min (length rs + 1) mr
         \<and> (\<forall>a. snapshot mr (elems a s) =
               (if length rs < mr then map (appended a) rs @ replicate (mr - length rs) (Fin 0)
                else drop (length rs + 1 - mr) (map (appended a) rs) @ [last (map (appended a) rs)]))
         \<and> (\<exists>zs. in_slots mr zs \<and> subscripts s = subscripts (boot mr) @ zs)"
  using assms(2)
proof (induction rs arbitrary: s rule: rev_induct)
  case Nil
  then have s: "s = boot mr" by simp
  have "snapshot mr (elems a (boot mr)) = replicate mr (Fin 0)" for a
    by (simp add: boot_fields snapshot_def)
  then show ?case
    unfolding s using sound_boot [OF assms(1)] assms(1)
    by (auto simp: boot_fields intro: exI [of _ "[]"])
next
  case (snoc r rs)
  from snoc.prems obtain s' where
    r: "run mr rs (boot mr) = Inr s'" and l: "loop mr (fst r) (snd r) s' = Inr s"
    by (rule run_snoc_Inr)
  from snoc.IH [OF r] obtain zs where
    snd: "sound mr s'" and rd: "reading s' = min (length rs + 1) mr" and
    sn: "\<And>a. snapshot mr (elems a s') =
               (if length rs < mr then map (appended a) rs @ replicate (mr - length rs) (Fin 0)
                else drop (length rs + 1 - mr) (map (appended a) rs) @ [last (map (appended a) rs)])" and
    zs: "in_slots mr zs" "subscripts s' = subscripts (boot mr) @ zs"
    by blast
  have 1: "sound mr s" using l snd by (rule loop_sound)
  have 2: "reading s = min (length (rs @ [r]) + 1) mr"
    using loop_arrays(1) [OF l snd] rd by (simp add: min_def)
  have 3: "snapshot mr (elems a s) =
               (if length (rs @ [r]) < mr
                then map (appended a) (rs @ [r]) @ replicate (mr - length (rs @ [r])) (Fin 0)
                else drop (length (rs @ [r]) + 1 - mr) (map (appended a) (rs @ [r]))
                       @ [last (map (appended a) (rs @ [r]))])" for a
  proof -
    let ?vs = "map (appended a) rs" and ?v = "appended a r" and ?n = "length rs"
    have "snapshot mr (elems a s) =
            (if min (?n + 1) mr = mr
             then drop 1 ((if ?n < mr then ?vs @ replicate (mr - ?n) (Fin 0)
                           else drop (?n + 1 - mr) ?vs @ [last ?vs])[mr - 1 := ?v]) @ [?v]
             else (if ?n < mr then ?vs @ replicate (mr - ?n) (Fin 0)
                   else drop (?n + 1 - mr) ?vs @ [last ?vs])[min (?n + 1) mr - 1 := ?v])"
      unfolding loop_snapshot [OF l snd] sn rd by simp
    also have "\<dots> = (if ?n + 1 < mr then (?vs @ [?v]) @ replicate (mr - (?n + 1)) (Fin 0)
                      else drop (?n + 2 - mr) (?vs @ [?v]) @ [?v])"
      by (rule slots_step [OF assms(1)]) simp
    also have "\<dots> = (if length (rs @ [r]) < mr
                then map (appended a) (rs @ [r]) @ replicate (mr - length (rs @ [r])) (Fin 0)
                else drop (length (rs @ [r]) + 1 - mr) (map (appended a) (rs @ [r]))
                       @ [last (map (appended a) (rs @ [r]))])"
      by simp
    finally show ?thesis .
  qed
  from loop_arrays(3) [OF l snd] obtain zs' where "in_slots mr zs'" "subscripts s = subscripts s' @ zs'"
    by blast
  with zs have 4: "in_slots mr (zs @ zs')" "subscripts s = subscripts (boot mr) @ (zs @ zs')"
    by simp_all
  from 1 2 3 4 show ?case by blast
qed

subsection \<open>Calls of loop() on sensor answers that are small numbers\<close>

lemma small_iff: "small x \<longleftrightarrow> (\<exists>q. x = Fin q \<and> \<bar>q\<bar> \<le> 16777216)"
  by (cases x) simp_all

lemma small_appended:
  assumes "fst r = Fin t" and "\<bar>t\<bar> \<le> 16777215" and "snd r = Fin h" and "\<bar>h\<bar> \<le> 16777215"
  shows "small (appended a r)"
proof -
  have "small (rnd (q + 1))" if "\<bar>q\<bar> \<le> 16777215" for q
  proof -
    from that have "of_int (- 16777216) \<le> q + 1" "q + 1 \<le> of_int 16777216" by simp_all
    from rnd_between [OF this] show ?thesis by (auto simp: small_iff)
  qed
  with assms show ?thesis
    by (cases a) (simp_all add: appended_def temp_error_offset_def humi_error_offset_def)
qed

lemma finite_slots_snapshot:
  assumes "length xs = mr + 1" and "list_all small (snapshot mr xs)"
  shows "\<forall>i\<in>{1..mr}. small (xs ! i)"
proof
  fix i assume "i \<in> {1..mr}"
  then have i: "i - 1 < mr" "i - 1 + 1 = i" by auto
  have "small (snapshot mr xs ! (i - 1))"
    using assms i(1) by (simp add: list_all_length length_snapshot)
  then show "small (xs ! i)"
    using nth_snapshot [OF assms(1) i(1)] i(2) by simp
qed

lemma loop_defined:
  assumes snd: "sound mr s"
    and fin: "\<And>a. list_all small (snapshot mr (elems a s))"
    and r: "\<And>a. small (appended a (t, h))"
  shows "\<exists>s'. loop mr t h s = Inr s'"
proof -
  let ?b = "loop_before_graphs t h s"
  have rs: "1 \<le> reading s" using snd by (simp add: sound_def)
  have len: "length (elems a ?b) = mr + 1" for a
    using sound_elems(1) [OF snd, of a] by (simp add: loop_before_graphs_fields)
  have "list_all small (snapshot mr (elems a ?b))" for a
    using fin [of a] rs r [of a]
      set_update_subset_insert [of "snapshot mr (elems a s)" "reading s - 1" "appended a (t, h)"]
    by (auto simp: loop_before_graphs_fields snapshot_update list_all_iff)
  then have slots: "\<forall>i\<in>{1..mr}. small (elems a ?b ! i)" for a
    using len by (rule finite_slots_snapshot [rotated])
  from DrawGraph_defined [where a = Temp and s = ?b and Y1Max = 50 and x = 105 and y = 20
      and w = 200 and h = 80 and title = "''Temperature''" and auto_scale = True and b = False
      and c = RED, OF slots]
  obtain s1 where
    d1: "DrawGraph mr 105 20 200 80 50 ''Temperature'' Temp True False RED ?b = Inr s1"
    by auto
  from DrawGraph_grows [OF d1] have "elems Humi s1 = elems Humi ?b"
    by (auto simp: grows_def)
  with slots [of Humi] have "\<forall>i\<in>{1..mr}. small (elems Humi s1 ! i)" by simp
  from DrawGraph_defined [where a = Humi and s = s1 and Y1Max = 100 and x = 105 and y = 150
      and w = 200 and h = 80 and title = "''Humidity''" and auto_scale = False and b = True
      and c = BLUE, OF this]
  obtain s2 where
    d2: "DrawGraph mr 105 150 200 80 100 ''Humidity'' Humi False True BLUE s1 = Inr s2"
    by auto
  show ?thesis by (simp add: loop_def d1 d2)
qed

lemma run_defined:
  assumes "1 \<le> mr" and "list_all (\<lambda>r. small (appended Temp r) \<and> small (appended Humi r)) rs"
  shows "\<exists>s. run mr rs (boot mr) = Inr s"
  using assms(2)
proof (induction rs rule: rev_induct)
  case Nil
  show ?case by simp
next
  case (snoc r rs)
  then obtain s' where s': "run mr rs (boot mr) = Inr s'" by auto
  from snoc.prems have "small (appended Temp r)" "small (appended Humi r)" and
    frs: "list_all (\<lambda>r. small (appended Temp r) \<and> small (appended Humi r)) rs" by simp_all
  then have fr: "small (appended a (fst r, snd r))" for a by (cases a) simp_all
  from run_invariant [OF assms(1) s'] have snd: "sound mr s'"
    by blast
  from run_invariant [OF assms(1) s'] have
    sn: "\<And>a. snapshot mr (elems a s') =
               (if length rs < mr then map (appended a) rs @ replicate (mr - length rs) (Fin 0)
                else drop (length rs + 1 - mr) (map (appended a) rs) @ [last (map (appended a) rs)])"
    by blast
  have all: "list_all small (map (appended a) rs)" for a
    using frs by (cases a; induction rs) simp_all
  have "list_all small (snapshot mr (elems a s'))" for a
  proof (cases "length rs < mr")
    case True
    then show ?thesis using all [of a] by (simp add: sn list_all_iff)
  next
    case False
    with assms(1) have "map (appended a) rs \<noteq> []" by auto
    then have "last (map (appended a) rs) \<in> set (map (appended a) rs)" by (rule last_in_set)
    then have "small (last (map (appended a) rs))"
      using all [of a] by (auto simp: list_all_iff)
    moreover have "list_all small (drop (length rs + 1 - mr) (map (appended a) rs))"
      using all [of a] set_drop_subset [of "length rs + 1 - mr" "map (appended a) rs"]
      unfolding list_all_iff by blast
    ultimately show ?thesis using False by (simp add: sn)
  qed
  from loop_defined [OF snd this fr] show ?case
    by (simp add: run_snoc s')
qed

subsection \<open>The running extrema\<close>

lemma run_extrema:
  assumes "run mr rs s0 = Inr s"
  shows "max_temp s = fold (\<lambda>r M. if fgt (appended Temp r) M then appended Temp r else M) rs (max_temp s0)"
    and "min_temp s = fold (\<lambda>r M. if fless (appended Temp r) M then appended Temp r else M) rs (min_temp s0)"
    and "max_humi s = fold (\<lambda>r M. if fgt (appended Humi r) M then appended Humi r else M) rs (max_humi s0)"
    and "min_humi s = fold (\<lambda>r M. if fless (appended Humi r) M then appended Humi r else M) rs (min_humi s0)"
  using assms
proof (induction rs arbitrary: s0)
  case Nil
  {
    case 1 then show ?case by simp
  next
    case 2 then show ?case by simp
  next
    case 3 then show ?case by simp
  next
    case 4 then show ?case by simp
  }
next
  case (Cons r rs)
  {
    case 1
    then obtain s1 where l: "loop mr (fst r) (snd r) s0 = Inr s1" and r: "run mr rs s1 = Inr s"
      by (auto split: sum.splits)
    show ?case using Cons.IH(1) [OF r] loop_extrema(1) [OF l] by simp
  next
    case 2
    then obtain s1 where l: "loop mr (fst r) (snd r) s0 = Inr s1" and r: "run mr rs s1 = Inr s"
      by (auto split: sum.splits)
    show ?case using Cons.IH(2) [OF r] loop_extrema(2) [OF l] by simp
  next
    case 3
    then obtain s1 where l: "loop mr (fst r) (snd r) s0 = Inr s1" and r: "run mr rs s1 = Inr s"
      by (auto split: sum.splits)
    show ?case using Cons.IH(3) [OF r] loop_extrema(3) [OF l] by simp
  next
    case 4
    then obtain s1 where l: "loop mr (fst r) (snd r) s0 = Inr s1" and r: "run mr rs s1 = Inr s"
      by (auto split: sum.splits)
    show ?case using Cons.IH(4) [OF r] loop_extrema(4) [OF l] by simp
  }
qed

lemma fold_fgt_Fin:
  assumes "map f rs = map Fin qs"
  shows "fold (\<lambda>r M. if fgt (f r) M then f r else M) rs (Fin M0) = Fin (fold max qs M0)"
  using assms
proof (induction rs arbitrary: qs M0)
  case Nil
  then show ?case by simp
next
  case (Cons r rs)
  then obtain q qs' where qs: "qs = q # qs'" "f r = Fin q" "map f rs = map Fin qs'"
    by (cases qs) auto
  show ?case using Cons.IH [OF qs(3)] by (simp add: qs fgt_def max_def not_less [symmetric])
qed

lemma fold_fless_Fin:
  assumes "map f rs = map Fin qs"
  shows "fold (\<lambda>r M. if fless (f r) M then f r else M) rs (Fin M0) = Fin (fold min qs M0)"
  using assms
proof (induction rs arbitrary: qs M0)
  case Nil
  then show ?case by simp
next
  case (Cons r rs)
  then obtain q qs' where qs: "qs = q # qs'" "f r = Fin q" "map f rs = map Fin qs'"
    by (cases qs) auto
  show ?case using Cons.IH [OF qs(3)] by (simp add: qs min_def not_less [symmetric])
qed

lemma fold_max_Max: "qs \<noteq> [] \<Longrightarrow> fold max qs (M0 :: rat) = max M0 (Max (set qs))"
  using Max.set_eq_fold [of M0 qs] by simp

lemma fold_min_Min: "qs \<noteq> [] \<Longrightarrow> fold min qs (M0 :: rat) = min M0 (Min (set qs))"
  using Min.set_eq_fold [of M0 qs] by simp

text \<open>
  Over the calls of \<^verbatim>\<open>loop()\<close> for a non-empty list of sensor answers whose stored values
  are the numbers \<open>ts\<close> and \<open>hs\<close>, each running extremum is the extremum of the stored
  values and of its initial value (line 45).
\<close>

lemma run_extrema_presets:
  assumes "run mr rs (boot mr) = Inr s" and "rs \<noteq> []"
    and "map (appended Temp) rs = map Fin ts" and "map (appended Humi) rs = map Fin hs"
  shows "max_temp s = Fin (max (- 100) (Max (set ts)))" and "min_temp s = Fin (min 100 (Min (set ts)))"
    and "max_humi s = Fin (max (- 100) (Max (set hs)))" and "min_humi s = Fin (min 100 (Min (set hs)))"
proof -
  from assms(2,3) have ts: "ts \<noteq> []" by auto
  from assms(2,4) have hs: "hs \<noteq> []" by auto
  have "max_temp s = Fin (fold max ts (- 100))"
    unfolding run_extrema(1) [OF assms(1)] boot_fields by (rule fold_fgt_Fin [OF assms(3)])
  then show "max_temp s = Fin (max (- 100) (Max (set ts)))"
    by (simp add: fold_max_Max [OF ts])
  have "min_temp s = Fin (fold min ts 100)"
    unfolding run_extrema(2) [OF assms(1)] boot_fields by (rule fold_fless_Fin [OF assms(3)])
  then show "min_temp s = Fin (min 100 (Min (set ts)))"
    by (simp add: fold_min_Min [OF ts])
  have "max_humi s = Fin (fold max hs (- 100))"
    unfolding run_extrema(3) [OF assms(1)] boot_fields by (rule fold_fgt_Fin [OF assms(4)])
  then show "max_humi s = Fin (max (- 100) (Max (set hs)))"
    by (simp add: fold_max_Max [OF hs])
  have "min_humi s = Fin (fold min hs 100)"
    unfolding run_extrema(4) [OF assms(1)] boot_fields by (rule fold_fless_Fin [OF assms(4)])
  then show "min_humi s = Fin (min 100 (Min (set hs)))"
    by (simp add: fold_min_Min [OF hs])
qed

section \<open>The claims\<close>

subsection \<open>One call of DrawGraph\<close>

text \<open>
  Claim C2, as the sketch has it. The claim rounds up: for a hint of 50 and a greatest
  sample of 20 it has \<open>ceil(27 / 5) * 5 = 30\<close> as the candidate and as the upper bound.
  Line 91 divides two \<^verbatim>\<open>int\<close>s, which drops the remainder: \<open>27 / 5 * 5 = 25\<close>, and 25 is
  the upper bound that \<^verbatim>\<open>DrawGraph\<close> uses. Shown for the temperature graph of the first
  call of \<^verbatim>\<open>loop()\<close>, when the sensor answers 19 degrees, stored as 20.
\<close>

theorem candidate_is_rounded_down:
  "\<lceil>(20 + 5 + 2) / (5 :: rat)\<rceil> * 5 = 30
   \<and> snapshot max_readings (temp_readings (loop_before_graphs (Fin 19) (Fin 50) (boot max_readings)))
       = Fin 20 # replicate 199 (Fin 0)
   \<and> map_sum id fst
        (resolve_Y1Max max_readings 50 Temp True (loop_before_graphs (Fin 19) (Fin 50) (boot max_readings)))
       = Inr 25"
proof -
  let ?s = "loop_before_graphs (Fin 19) (Fin 50) (boot max_readings)"
  have e: "elems Temp ?s = (replicate (max_readings + 1) (Fin 0))[1 := Fin 20]"
    by (simp add: loop_before_graphs_fields boot_fields appended_def temp_error_offset_def
        del: replicate_Suc replicate.simps)
  have 1: "\<forall>i\<in>{1..max_readings}. \<exists>q. elems Temp ?s ! i = Fin q \<and> binary32 q \<and> q \<le> 20"
    unfolding e by (auto simp: nth_list_update binary32_def simp del: replicate_Suc replicate.simps)
  have 2: "\<exists>i\<in>{1..max_readings}. elems Temp ?s ! i = Fin 20"
    unfolding e
    by (rule bexI [of _ 1]) (simp_all add: max_readings_def del: replicate_Suc replicate.simps)
  from resolve_Y1Max_value [OF 1 2, of 50] obtain s' where
    "resolve_Y1Max max_readings 50 Temp True ?s = Inr (25, s')"
    by (auto simp: Let_def)
  then have "map_sum id fst (resolve_Y1Max max_readings 50 Temp True ?s) = Inr 25"
    by simp
  moreover have "\<lceil>27 / (5 :: rat)\<rceil> = 6"
    by (rule ceiling_unique) simp_all
  then have "\<lceil>(20 + 5 + 2) / (5 :: rat)\<rceil> * 5 = 30"
    by simp
  moreover have "snapshot 200 ((replicate (200 + 1) (Fin 0))[1 := Fin 20]) = Fin 20 # replicate 199 (Fin 0)"
    unfolding snapshot_def
    by (rule nth_equalityI)
      (auto simp: nth_list_update nth_Cons' simp del: replicate_Suc replicate.simps)
  then have "snapshot max_readings (temp_readings ?s) = Fin 20 # replicate 199 (Fin 0)"
    using e by (simp only: elems_simps max_readings_def)
  ultimately show ?thesis by blast
qed

text \<open>
  Claim C2, amended. With the autoscale flag set, \<^verbatim>\<open>DrawGraph\<close> scans slots 1 to \<open>mr\<close>
  of the array of \<open>mr + 1\<close> elements. When they hold binary32 numbers whose greatest
  is \<open>M\<close>, and \<open>M\<close> is below \<open>2 ^ 31\<close> so that its conversion to \<^verbatim>\<open>int\<close> in line 90 is
  defined, the candidate is \<open>(m + 5 + 2) / 5 * 5\<close> in \<^verbatim>\<open>int\<close> arithmetic, the division
  dropping the remainder, where \<open>m\<close> is the integer part of \<open>M\<close>, or 0 when \<open>M\<close> is
  negative; the sum does not overflow, and the upper bound is the candidate when that
  is below the hint and the hint otherwise. For a hint of 50 and a greatest sample of
  20 the candidate and the upper bound are 25.
\<close>

theorem resolve_Y1Max_candidate:
  assumes "length (elems DataArray s) = mr + 1"
    and "\<forall>i\<in>{1..mr}. \<exists>q. elems DataArray s ! i = Fin q \<and> binary32 q \<and> q \<le> M"
    and "\<exists>i\<in>{1..mr}. elems DataArray s ! i = Fin M"
    and "M < 2147483648"
  shows "\<exists>s'. resolve_Y1Max mr Y1Max DataArray True s =
           Inr (let candidate = ((max 0 \<lfloor>M\<rfloor> + 5 + 2) div 5) * 5
                in if candidate < Y1Max then candidate else Y1Max, s')"
  using assms(2-4) by (rule resolve_Y1Max_value)

theorem resolve_Y1Max_candidate_witness:
  "map_sum id fst (resolve_Y1Max 5 50 Temp True
      ((initial 5)\<lparr>temp_readings := [Fin 0, Fin 3, Fin 20, Fin 7, Fin 0, Fin 12]\<rparr>)) = Inr 25"
proof -
  let ?s = "(initial 5)\<lparr>temp_readings := [Fin 0, Fin 3, Fin 20, Fin 7, Fin 0, Fin 12]\<rparr>"
  have five: "{1..5::nat} = {1, 2, 3, 4, 5}" by auto
  have 1: "\<forall>i\<in>{1..5}. \<exists>q. elems Temp ?s ! i = Fin q \<and> binary32 q \<and> q \<le> 20"
    unfolding five by (simp add: elems_simps binary32_def)
  have 2: "\<exists>i\<in>{1..5}. elems Temp ?s ! i = Fin 20"
    unfolding five by (simp add: elems_simps)
  have 0: "length (elems Temp ?s) = 5 + 1"
    by (simp add: elems_simps)
  from resolve_Y1Max_candidate [OF 0 1 2, of 50] obtain s' where
    "resolve_Y1Max 5 50 Temp True ?s = Inr (25, s')"
    by (auto simp: Let_def)
  then show ?thesis by simp
qed




text \<open>
  The bound on the magnitudes is needed. With an upper bound of 3355447 and a height
  of 80 the product of line 108 is not a binary32 number: for a sample of 4000000,
  clamped to the upper bound, \<open>3355447 * 80 = 268435760\<close> is rounded to 268435776, the
  quotient comes out above 80 and the coordinate is \<open>y_pos\<close>, above the interval.
\<close>

lemma scaled_y_rounding:
  "fmul (Fin 3355447) (i2f 80) = Fin 268435776
   \<and> f2i (scaled_y 20 80 (Fin 4000000) 3355447) = Some 20"
proof -
  have 1: "rnd 268435760 = Fin 268435776"
    using rnd_value [of 28 268435760 8388617]
    by (simp add: pow2_def max_float_def Let_def)
  have 2: "rnd (268435776 / 3355447) = Fin (10485761 / 131072)"
    using rnd_value [of 6 "268435776 / 3355447" 10485760]
    by (simp add: pow2_def max_float_def Let_def)
  have 3: "rnd (100 - 10485761 / 131072) = Fin (2621439 / 131072)"
    using rnd_value [of 4 "100 - 10485761 / 131072" 10485756]
    by (simp add: pow2_def max_float_def Let_def)
  have 4: "rnd (2621439 / 131072 + 1) = Fin (2752511 / 131072)"
    using rnd_value [of 4 "2621439 / 131072 + 1" 11010044]
    by (simp add: pow2_def max_float_def Let_def)
  have "scaled_y 20 80 (Fin 4000000) 3355447 = Fin (2752511 / 131072)"
    using 3 4 by (simp add: scaled_y_def constrain_def fgt_def fsub_def 1 2)
  moreover have "\<lfloor>2752511 / 131072 :: rat\<rfloor> = 20"
    by (rule floor_unique) simp_all
  ultimately show ?thesis
    by (simp add: 1 INT_MIN_def INT_MAX_def)
qed

text \<open>
  Claim C6. With the autoscale flag set, the upper bound that \<^verbatim>\<open>DrawGraph\<close> resolves
  (lines 88 to 93) is at most the hint \<^verbatim>\<open>Y1Max\<close> it was called with: autoscale can
  lower the bound, never raise it.
\<close>

theorem resolve_Y1Max_le_hint:
  assumes "resolve_Y1Max mr Y1Max DataArray True s = Inr (U, s')"
  shows "U \<le> Y1Max"
  using assms by (rule resolve_Y1Max_le)

theorem resolve_Y1Max_le_hint_witness:
  "map_sum id fst (resolve_Y1Max 5 50 Temp True
      ((initial 5)\<lparr>temp_readings := [Fin 0, Fin 3, Fin 20, Fin 7, Fin 0, Fin 0]\<rparr>)) = Inr 25
   \<and> (25::int) \<le> 50"
proof -
  let ?s = "(initial 5)\<lparr>temp_readings := [Fin 0, Fin 3, Fin 20, Fin 7, Fin 0, Fin 0]\<rparr>"
  have five: "{1..5::nat} = {1, 2, 3, 4, 5}" by auto
  have 1: "\<forall>i\<in>{1..5}. \<exists>q. elems Temp ?s ! i = Fin q \<and> binary32 q \<and> q \<le> 20"
    unfolding five by (simp add: elems_simps binary32_def)
  have 2: "\<exists>i\<in>{1..5}. elems Temp ?s ! i = Fin 20"
    unfolding five by (simp add: elems_simps)
  from resolve_Y1Max_value [OF 1 2, of 50] obtain s' where
    r: "resolve_Y1Max 5 50 Temp True ?s = Inr (25, s')"
    by (auto simp: Let_def)
  then have v: "map_sum id fst (resolve_Y1Max 5 50 Temp True ?s) = Inr 25"
    by simp
  from resolve_Y1Max_le_hint [OF r] v show ?thesis by simp
qed

text \<open>
  Claim C7, as the sketch has it. The claim has a call whose upper bound resolves to
  zero or less rejected with \<^verbatim>\<open>InvalidConfig\<close> before any scaling division. With
  autoscale off the bound is the hint as it is; a call with the hint -10 draws the
  graph and returns, and a call with the hint 0 divides zero by zero in line 108, which
  is NaN, whose conversion to \<^verbatim>\<open>int\<close> is undefined.
\<close>

theorem DrawGraph_takes_nonpositive_bound:
  "map_sum id fst (resolve_Y1Max max_readings (- 10) Humi False (boot max_readings)) = Inr (- 10)
   \<and> \<not> isl (DrawGraph max_readings 105 150 200 80 (- 10) ''Humidity'' Humi False True BLUE
               (boot max_readings))
   \<and> map_sum id fst (resolve_Y1Max max_readings 0 Humi False (boot max_readings)) = Inr 0
   \<and> scaled_y 150 80 (Fin 0) 0 = NaN
   \<and> DrawGraph max_readings 105 150 200 80 0 ''Humidity'' Humi False True BLUE (boot max_readings)
       = Inl Undefined_conversion"
proof -
  have m: "1 \<le> max_readings" by (simp add: max_readings_def)
  have c: "f2i (scaled_y 150 80 (Fin 0) (- 10)) = Some 151"
    by (simp add: scaled_y_def constrain_def fgt_def fsub_def INT_MIN_def INT_MAX_def)
  have "\<exists>s'. DrawGraph max_readings 105 150 200 80 (- 10) ''Humidity'' Humi False True BLUE
               (boot max_readings) = Inr s'"
  proof (rule DrawGraph_defined_plot)
    show "\<forall>i\<in>{1..max_readings}. scannable (elems Humi (boot max_readings) ! i)"
      using boot_slots [of max_readings Humi] by simp
  next
    fix U s1
    assume "resolve_Y1Max max_readings (- 10) Humi False (boot max_readings) = Inr (U, s1)"
    then have "U = - 10" by (simp add: resolve_Y1Max_def)
    then show "\<forall>i\<in>{1..max_readings}. \<exists>v. f2i (scaled_y 150 80 (elems Humi (boot max_readings) ! i) U) = Some v"
      using boot_slots [of max_readings Humi] c by simp
  qed
  then have 1: "\<not> isl (DrawGraph max_readings 105 150 200 80 (- 10) ''Humidity'' Humi False True BLUE
               (boot max_readings))"
    by auto
  have 2: "scaled_y 150 80 (Fin 0) 0 = NaN"
    by (simp add: scaled_y_def constrain_def fgt_def fsub_def signed_inf_def)
  have "elems Humi (boot max_readings) ! 1 = Fin 0"
    using m by (simp add: boot_fields nth_replicate del: replicate_Suc replicate.simps)
  then have "f2i (scaled_y 150 80 (elems Humi (boot max_readings) ! 1) 0) = None"
    by (simp add: 2)
  then have 3: "DrawGraph max_readings 105 150 200 80 0 ''Humidity'' Humi False True BLUE
                  (boot max_readings) = Inl Undefined_conversion"
    by (rule DrawGraph_undefined_at_first_slot [OF m, rotated]) (simp add: resolve_Y1Max_def)
  from 1 2 3 show ?thesis by (simp add: resolve_Y1Max_def)
qed

text \<open>
  Claim C7, amended. \<^verbatim>\<open>DrawGraph\<close> has no check of its upper bound and no way to
  reject a call. What holds is that, whenever the conversions and the sum of lines 90
  and 91 are defined (no sample that the scan converts is NaN, an infinity or beyond
  the range of \<^verbatim>\<open>int\<close>), a hint above zero resolves to an upper bound above zero, with
  autoscale or without (the autoscale candidate is at least 5), so for such a hint the
  division of line 108 is never by zero.
\<close>

theorem resolve_Y1Max_positive:
  assumes "0 < Y1Max" and "resolve_Y1Max mr Y1Max DataArray auto_scale s = Inr (U, s')"
  shows "0 < U"
  using assms by (rule resolve_Y1Max_pos)

theorem resolve_Y1Max_positive_witness:
  "(0::int) < 50
   \<and> map_sum id fst (resolve_Y1Max 5 50 Temp True
         ((initial 5)\<lparr>temp_readings := [Fin 0, Fin (- 3), Fin (- 20), Fin (- 7), Fin 0, Fin (- 1)]\<rparr>)) = Inr 5
   \<and> (0::int) < 5"
proof -
  let ?s = "(initial 5)\<lparr>temp_readings := [Fin 0, Fin (- 3), Fin (- 20), Fin (- 7), Fin 0, Fin (- 1)]\<rparr>"
  have five: "{1..5::nat} = {1, 2, 3, 4, 5}" by auto
  have 1: "\<forall>i\<in>{1..5}. \<exists>q. elems Temp ?s ! i = Fin q \<and> binary32 q \<and> q \<le> 0"
    unfolding five by (simp add: elems_simps binary32_def)
  have 2: "\<exists>i\<in>{1..5}. elems Temp ?s ! i = Fin 0"
    unfolding five by (simp add: elems_simps)
  from resolve_Y1Max_value [OF 1 2, of 50] obtain s' where
    r: "resolve_Y1Max 5 50 Temp True ?s = Inr (5, s')"
    by (auto simp: Let_def)
  then have v: "map_sum id fst (resolve_Y1Max 5 50 Temp True ?s) = Inr 5"
    by simp
  from resolve_Y1Max_positive [OF _ r] v show ?thesis by simp
qed

text \<open>
  Claim C8. The calls on the display that \<^verbatim>\<open>DrawGraph\<close> makes are a function of its
  arguments and of the contents of the array it is given: two calls with the same
  arguments on states that hold the same samples make the same calls in the same
  order (or are both undefined), whatever else differs between the states, such as
  what is on the display already.
\<close>

theorem draw_calls_deterministic:
  assumes "elems DataArray s = elems DataArray t"
  shows "draw_calls mr x_pos y_pos width height Y1Max title DataArray auto_scale barchart_mode graph_colour s
         = draw_calls mr x_pos y_pos width height Y1Max title DataArray auto_scale barchart_mode graph_colour t"
  using DrawGraph_rel [OF assms, of mr x_pos y_pos width height Y1Max title auto_scale barchart_mode graph_colour]
  unfolding draw_calls_def
  by (cases rule: rel_sumE) (auto simp: sim_def)

theorem draw_calls_deterministic_witness:
  "elems Temp ((initial 3)\<lparr>temp_readings := [Fin 0, Fin 3, Fin 20, Fin 7]\<rparr>)
     = elems Temp (emit [FillScreen BLACK] ((initial 3)\<lparr>temp_readings := [Fin 0, Fin 3, Fin 20, Fin 7]\<rparr>))
   \<and> tft (emit [FillScreen BLACK] ((initial 3)\<lparr>temp_readings := [Fin 0, Fin 3, Fin 20, Fin 7]\<rparr>))
       \<noteq> tft ((initial 3)\<lparr>temp_readings := [Fin 0, Fin 3, Fin 20, Fin 7]\<rparr>)
   \<and> draw_calls 3 105 20 200 80 50 ''Temperature'' Temp True False RED
         ((initial 3)\<lparr>temp_readings := [Fin 0, Fin 3, Fin 20, Fin 7]\<rparr>)
       = draw_calls 3 105 20 200 80 50 ''Temperature'' Temp True False RED
           (emit [FillScreen BLACK] ((initial 3)\<lparr>temp_readings := [Fin 0, Fin 3, Fin 20, Fin 7]\<rparr>))"
proof -
  let ?s = "(initial 3)\<lparr>temp_readings := [Fin 0, Fin 3, Fin 20, Fin 7]\<rparr>"
  have e: "elems Temp ?s = elems Temp (emit [FillScreen BLACK] ?s)"
    by simp
  have d: "tft (emit [FillScreen BLACK] ?s) \<noteq> tft ?s"
    by simp
  from draw_calls_deterministic [OF e] e d show ?thesis
    by blast
qed

text \<open>
  Claim C9. \<^verbatim>\<open>DrawGraph\<close> never writes to the series: after a call that returns, both
  sample arrays hold in every slot what they held before, whatever the autoscale and
  bar chart flags.
\<close>

theorem DrawGraph_leaves_series:
  assumes "DrawGraph mr x_pos y_pos width height Y1Max title DataArray auto_scale barchart_mode graph_colour s
             = Inr s'"
  shows "temp_readings s' = temp_readings s \<and> humi_readings s' = humi_readings s"
  using DrawGraph_grows [OF assms] by (auto simp: grows_def)

theorem DrawGraph_leaves_series_witness:
  "map_sum id (\<lambda>s'. (temp_readings s', humi_readings s'))
     (DrawGraph 3 105 20 200 80 50 ''Temperature'' Temp True False RED
        ((initial 3)\<lparr>temp_readings := [Fin 0, Fin 3, Fin 20, Fin 7]\<rparr>))
   = Inr ([Fin 0, Fin 3, Fin 20, Fin 7], [Fin 0, Fin 0, Fin 0, Fin 0])"
proof -
  let ?s = "(initial 3)\<lparr>temp_readings := [Fin 0, Fin 3, Fin 20, Fin 7]\<rparr>"
  have three: "{1..3::nat} = {1, 2, 3}" by auto
  have "\<forall>i\<in>{1..3}. small (elems Temp ?s ! i)"
    unfolding three by (simp add: elems_simps)
  then have "\<exists>s'. DrawGraph 3 105 20 200 80 50 ''Temperature'' Temp True False RED ?s = Inr s'"
    by (rule DrawGraph_defined) simp_all
  then obtain s' where r: "DrawGraph 3 105 20 200 80 50 ''Temperature'' Temp True False RED ?s = Inr s'" ..
  from DrawGraph_leaves_series [OF r]
  have "temp_readings s' = [Fin 0, Fin 3, Fin 20, Fin 7] \<and> humi_readings s' = [Fin 0, Fin 0, Fin 0, Fin 0]"
    by (simp add: initial_def numeral_eq_Suc)
  then show ?thesis unfolding r by simp
qed

subsection \<open>The two series over the calls of loop()\<close>

text \<open>
  Claim C1. Once at least \<open>mr\<close> readings have been appended, the slots 1 to \<open>mr\<close>
  that \<^verbatim>\<open>DrawGraph\<close> is given (the array as it is just before the two calls of
  \<^verbatim>\<open>DrawGraph\<close> in \<^verbatim>\<open>loop()\<close>) are exactly \<open>mr\<close> values: the newest \<open>mr\<close> readings,
  oldest first. Here \<open>rs\<close> are the sensor answers of the calls of \<^verbatim>\<open>loop()\<close> that have
  returned and \<open>(t, h)\<close> is the answer of the call that is about to draw.
\<close>

theorem snapshot_at_render:
  assumes "1 \<le> mr" and "run mr rs (boot mr) = Inr s" and "mr \<le> length rs + 1"
  shows "length (snapshot mr (elems a (loop_before_graphs t h s))) = mr
         \<and> snapshot mr (elems a (loop_before_graphs t h s))
             = drop (length rs + 1 - mr) (map (appended a) (rs @ [(t, h)]))"
proof -
  let ?vs = "map (appended a) rs" and ?v = "appended a (t, h)" and ?n = "length rs"
  from run_invariant [OF assms(1,2)] have snd: "sound mr s" and rd: "reading s = min (?n + 1) mr"
    by blast+
  from run_invariant [OF assms(1,2)] have
    sn: "snapshot mr (elems a s) =
               (if ?n < mr then ?vs @ replicate (mr - ?n) (Fin 0)
                else drop (?n + 1 - mr) ?vs @ [last ?vs])"
    by blast
  have len: "length (elems a s) = mr + 1" using snd by (rule sound_elems)
  have r: "reading s = mr" using rd assms(3) by simp
  have e: "snapshot mr (elems a (loop_before_graphs t h s)) = (snapshot mr (elems a s))[mr - 1 := ?v]"
    using assms(1) r by (simp add: loop_before_graphs_fields snapshot_update)
  have "(snapshot mr (elems a s))[mr - 1 := ?v] = drop (?n + 1 - mr) (?vs @ [?v])"
  proof (cases "?n < mr")
    case True
    with assms(3) have n: "?n + 1 = mr" by simp
    then have "(?vs @ replicate (mr - ?n) (Fin 0))[mr - 1 := ?v] = ?vs @ [?v]"
      by (intro nth_equalityI) (auto simp: nth_append nth_list_update)
    with True n show ?thesis by (simp add: sn)
  next
    case False
    then have "length (drop (?n + 1 - mr) ?vs) = mr - 1" by simp
    then have "(drop (?n + 1 - mr) ?vs @ [last ?vs])[mr - 1 := ?v] = drop (?n + 1 - mr) ?vs @ [?v]"
      by (simp add: list_update_append)
    with False assms(1) show ?thesis by (simp add: sn)
  qed
  with e have "snapshot mr (elems a (loop_before_graphs t h s)) = drop (?n + 1 - mr) (?vs @ [?v])"
    by simp
  moreover have "length (snapshot mr (elems a (loop_before_graphs t h s))) = mr"
    using len by (simp add: loop_before_graphs_fields length_snapshot)
  ultimately show ?thesis by simp
qed

theorem snapshot_at_render_witness:
  "map_sum id (\<lambda>s. snapshot 5 (elems Temp (loop_before_graphs (Fin 59) (Fin 59) s)))
     (run 5 [(Fin 9, Fin 9), (Fin 19, Fin 19), (Fin 29, Fin 29), (Fin 39, Fin 39), (Fin 49, Fin 49)]
        (boot 5))
   = Inr [Fin 20, Fin 30, Fin 40, Fin 50, Fin 60]"
proof -
  let ?rs = "[(Fin 9, Fin 9), (Fin 19, Fin 19), (Fin 29, Fin 29), (Fin 39, Fin 39), (Fin 49, Fin 49)]"
  have "\<exists>s. run 5 ?rs (boot 5) = Inr s"
    by (rule run_defined) (simp_all add: appended_def temp_error_offset_def humi_error_offset_def)
  then obtain s where s: "run 5 ?rs (boot 5) = Inr s" ..
  have "snapshot 5 (elems Temp (loop_before_graphs (Fin 59) (Fin 59) s))
          = [Fin 20, Fin 30, Fin 40, Fin 50, Fin 60]"
    using snapshot_at_render [of 5 ?rs s Temp "Fin 59" "Fin 59"] s
    by (simp add: appended_def temp_error_offset_def)
  then show ?thesis unfolding s by simp
qed

text \<open>
  Claim C3. A sensor answer of NaN is a failed read. \<^verbatim>\<open>get_temperature_and_humidity\<close>
  reports it on the serial port, but its \<^verbatim>\<open>return\<close> leaves only that function:
  \<^verbatim>\<open>loop()\<close> goes on, stores NaN in slot \<^verbatim>\<open>reading\<close> of both arrays, prints on the display
  and calls \<^verbatim>\<open>DrawGraph\<close>, where the conversion of NaN to \<^verbatim>\<open>int\<close> in line 108 is
  undefined. Shown for the first call of \<^verbatim>\<open>loop()\<close> after \<^verbatim>\<open>setup()\<close>.
\<close>

theorem failed_read_is_stored:
  "serial (loop_before_graphs NaN NaN (boot max_readings))
     = serial (boot max_readings) @ [SerialPrintlnText ''Failed to read from DHT sensor!'']
   \<and> temp_readings (boot max_readings) ! 1 = Fin 0
   \<and> temp_readings (loop_before_graphs NaN NaN (boot max_readings)) ! 1 = NaN
   \<and> humi_readings (boot max_readings) ! 1 = Fin 0
   \<and> humi_readings (loop_before_graphs NaN NaN (boot max_readings)) ! 1 = NaN
   \<and> length (tft (loop_before_graphs NaN NaN (boot max_readings))) = length (tft (boot max_readings)) + 27
   \<and> loop max_readings NaN NaN (boot max_readings) = Inl Undefined_conversion"
proof -
  let ?b = "loop_before_graphs NaN NaN (boot max_readings)"
  have m: "1 \<le> max_readings" by (simp add: max_readings_def)
  have b: "elems a (boot max_readings) = replicate (max_readings + 1) (Fin 0)" for a
    by (rule boot_fields)
  have e: "elems a ?b = (replicate (max_readings + 1) (Fin 0))[1 := NaN]" for a
    by (cases a)
      (simp_all add: loop_before_graphs_fields boot_fields appended_def
        del: replicate_Suc replicate.simps)
  have 1: "serial ?b = serial (boot max_readings) @ [SerialPrintlnText ''Failed to read from DHT sensor!'']"
    by (simp add: loop_before_graphs_def Let_def store_reading_fields
        get_temperature_and_humidity_def isnan_def)
  have 2: "length (tft ?b) = length (tft (boot max_readings)) + 27"
    by (simp add: loop_before_graphs_def Let_def store_reading_fields get_fields)
  have 3: "elems a (boot max_readings) ! 1 = Fin 0" "elems a ?b ! 1 = NaN" for a
    unfolding e b using m by (simp_all del: replicate_Suc replicate.simps)
  have "\<forall>i\<in>{1..max_readings}. scannable (elems Temp ?b ! i)"
    unfolding e by (auto simp: nth_list_update simp del: replicate_Suc replicate.simps)
  from resolve_Y1Max_defined [OF this, of 50 True] obtain U s1 where
    r: "resolve_Y1Max max_readings 50 Temp True ?b = Inr (U, s1)" by blast
  have "f2i (scaled_y 20 80 (elems Temp ?b ! 1) U) = None"
    unfolding 3 by (simp add: scaled_y_NaN)
  from DrawGraph_undefined_at_first_slot [OF m r this]
  have 4: "loop max_readings NaN NaN (boot max_readings) = Inl Undefined_conversion"
    by (simp add: loop_def)
  from 1 2 3 [of Temp] 3 [of Humi] 4 show ?thesis by (simp add: elems_simps)
qed

text \<open>
  Claim C4. The claim makes each running minimum and maximum the least and the
  greatest value ever appended, the initial extrema being replaced by the first real
  reading. The sketch does not achieve that. Line 45 starts the minima at 100 and the
  maxima at -100, and lines 162 to 165 replace an extremum only by a reading beyond it
  (\<open>run_extrema_presets\<close> above). 100 is a humidity that the sensor reports: line 207
  adds the error offset, the reading 101 is appended, and the running minimum stays at
  the initial 100, a value that was never appended. Shown for the first call of
  \<^verbatim>\<open>loop()\<close> after \<^verbatim>\<open>setup()\<close>, with the sensor answering 20 degrees and 100 percent.
\<close>

theorem min_humi_keeps_initial_value:
  "appended Humi (Fin 20, Fin 100) = Fin 101
   \<and> map_sum id min_humi (run max_readings [(Fin 20, Fin 100)] (boot max_readings)) = Inr (Fin 100)"
proof -
  let ?rs = "[(Fin 20, Fin 100)]"
  have "\<exists>s. run max_readings ?rs (boot max_readings) = Inr s"
    by (rule run_defined)
      (simp_all add: max_readings_def appended_def temp_error_offset_def humi_error_offset_def)
  then obtain s where s: "run max_readings ?rs (boot max_readings) = Inr s" ..
  have "min_humi s = Fin 100"
    using run_extrema(4) [OF s]
    by (simp add: boot_fields appended_def humi_error_offset_def)
  then show ?thesis
    unfolding s by (simp add: appended_def humi_error_offset_def)
qed

text \<open>
  Claim C10. After \<^verbatim>\<open>setup()\<close>, every subscript that the calls of \<^verbatim>\<open>loop()\<close> apply to
  one of the two arrays (the append, the scroll, the scan and the plot of
  \<^verbatim>\<open>DrawGraph\<close>) is a slot from 1 to \<open>mr\<close>, inside the \<open>mr + 1\<close> elements that each
  array has; element 0 is never touched and holds zero.
\<close>

theorem subscripts_in_slots:
  assumes "1 \<le> mr" and "run mr rs (boot mr) = Inr s"
  shows "(\<exists>zs. subscripts s = subscripts (boot mr) @ zs \<and> in_slots mr zs)
         \<and> length (temp_readings s) = mr + 1 \<and> length (humi_readings s) = mr + 1
         \<and> temp_readings s ! 0 = Fin 0 \<and> humi_readings s ! 0 = Fin 0"
proof -
  from run_invariant [OF assms] have "sound mr s"
    and "\<exists>zs. in_slots mr zs \<and> subscripts s = subscripts (boot mr) @ zs"
    by blast+
  then show ?thesis by (auto simp: sound_def)
qed

theorem subscripts_in_slots_witness:
  "case run max_readings [(Fin 20, Fin 50), (Fin 21, Fin 49)] (boot max_readings) of
     Inl e \<Rightarrow> False
   | Inr s \<Rightarrow>
       in_slots max_readings (drop (length (subscripts (boot max_readings))) (subscripts s))
       \<and> length (temp_readings s) = 201 \<and> length (humi_readings s) = 201
       \<and> temp_readings s ! 0 = Fin 0 \<and> humi_readings s ! 0 = Fin 0"
proof -
  let ?rs = "[(Fin 20, Fin 50), (Fin 21, Fin 49)]"
  have m: "1 \<le> max_readings" by (simp add: max_readings_def)
  have "\<exists>s. run max_readings ?rs (boot max_readings) = Inr s"
    using m by (rule run_defined)
      (simp add: appended_def temp_error_offset_def humi_error_offset_def)
  then obtain s where s: "run max_readings ?rs (boot max_readings) = Inr s" ..
  from subscripts_in_slots [OF m s] show ?thesis
    unfolding s by (auto simp: max_readings_def)
qed

end
